theory Spec2Isabelle
  imports Complex_Main
begin

section \<open>Text discovery: the word-finding canvas (docs/text-discovery)\<close>

text \<open>
  A shallow embedding of \<^verbatim>\<open>docs/text-discovery/words.js\<close> and of the systems of
  \<^verbatim>\<open>docs/text-discovery/main.js\<close> (letters, seeding, spotlight scan, capture).
  JavaScript numbers that hold times, fade fractions and pixel positions are modelled as
  \<^typ>\<open>real\<close>; counts and lengths as \<^typ>\<open>nat\<close>; grid coordinates and cell indices as
  \<^typ>\<open>int\<close>, since the source computes them by subtraction and by \<^verbatim>\<open>Math.floor\<close>.
  The hold timer of \<^verbatim>\<open>updateCapture\<close> compares a quotient of clock readings with 1, and there
  the rounding of the double arithmetic decides the branch: its subtraction, product and
  quotient are rounded as the machine rounds them (\<open>fl\<close> below).
  A string is a list of its UTF-16 code units, written \<^typ>\<open>string\<close>.
  Every mutation of \<^verbatim>\<open>world\<close> is explicit state passing, and a \<^verbatim>\<open>TypeError\<close> (a property
  read on \<^verbatim>\<open>undefined\<close>) is the result \<^term>\<open>None\<close>.
\<close>

subsection \<open>Utilities\<close>

definition clamp :: "real \<Rightarrow> real \<Rightarrow> real \<Rightarrow> real" where
  "clamp v lo hi = max lo (min hi v)"

text \<open>
  The result of an arithmetic operation on JavaScript numbers is the exact result rounded to
  the nearest double (IEEE 754 binary64), a tie going to the even significand. \<open>fl\<close> is that
  rounding, for results of a magnitude below the largest double (beyond it the source has
  \<^verbatim>\<open>Infinity\<close>, which \<^typ>\<open>real\<close> does not have: a result is finite when \<open>fl\<close> gives less
  than \<open>2\<close> to the 1024). A double is a multiple of its unit in the last
  place, \<open>2\<close> to the power \<open>ulpExp\<close>: the binary exponent of the number, which is at least
  \<open>-1022\<close> (below it the numbers are subnormal), less the 52 fraction bits.
\<close>

definition roundEven :: "real \<Rightarrow> int" where
  "roundEven y =
    (let n = \<lfloor>y\<rfloor>; d = y - of_int n
     in if d < 1 / 2 then n else if d > 1 / 2 then n + 1 else if even n then n else n + 1)"

definition ulpExp :: "real \<Rightarrow> int" where
  "ulpExp x = max \<lfloor>log 2 \<bar>x\<bar>\<rfloor> (- 1022) - 52"

definition fl :: "real \<Rightarrow> real" where
  "fl x =
    (if x = 0 then 0
     else of_int (roundEven (x / 2 powr of_int (ulpExp x))) * 2 powr of_int (ulpExp x))"

text \<open>
  The generator \<^verbatim>\<open>createMulberry32\<close> returns a closure over a hidden counter; every call
  yields an unsigned 32-bit integer divided by \<^verbatim>\<open>4294967296\<close>, a number in \<open>[0, 1)\<close>.
  The closure is modelled by the stream of numbers it will return: a call reads the head
  and leaves the tail. \<open>rng_ok\<close> states the range of every future draw.
\<close>

type_synonym rng = "nat \<Rightarrow> real"

definition rng_next :: "rng \<Rightarrow> real \<times> rng" where
  "rng_next g = (g 0, \<lambda>n. g (Suc n))"

definition rng_ok :: "rng \<Rightarrow> bool" where
  "rng_ok g = (\<forall>n. 0 \<le> g n \<and> g n < 1)"

definition randBetween :: "rng \<Rightarrow> real \<Rightarrow> real \<Rightarrow> real \<times> rng" where
  "randBetween g a b = (case rng_next g of (u, g') \<Rightarrow> (a + (b - a) * u, g'))"

subsection \<open>words.js: the dictionary and the trie\<close>

definition DICTIONARY :: "string list" where
  "DICTIONARY =
    [''mind'', ''share'', ''thought'', ''word'', ''soup'', ''circle'', ''red'', ''light'',
     ''blur'', ''find'', ''idea'', ''dream'', ''story'', ''letter'', ''phase'', ''float'',
     ''jitter'', ''shift'', ''fade'', ''hold'', ''time'', ''space'', ''sense'', ''look'',
     ''seek'', ''play'', ''game'', ''craft'', ''build'', ''change'']"

text \<open>
  \<^verbatim>\<open>chooseWord(rng, minLen, maxLen)\<close> reads the module constant \<^verbatim>\<open>DICTIONARY\<close>; the list is
  a parameter here, so that the function can be stated for any dictionary. \<open>wordSource\<close> is
  the array \<^verbatim>\<open>source\<close>, and \<^verbatim>\<open>source[idx]\<close> is \<^verbatim>\<open>undefined\<close> outside the array: the result \<^term>\<open>None\<close>.
\<close>

definition lengthOk :: "int \<Rightarrow> int \<Rightarrow> string \<Rightarrow> bool" where
  "lengthOk minLen maxLen w = (int (length w) \<ge> minLen \<and> int (length w) \<le> maxLen)"

definition wordSource :: "string list \<Rightarrow> int \<Rightarrow> int \<Rightarrow> string list" where
  "wordSource dict minLen maxLen =
    (let filtered = filter (lengthOk minLen maxLen) dict
     in if length filtered \<noteq> 0 then filtered else dict)"

definition chooseWord :: "string list \<Rightarrow> rng \<Rightarrow> int \<Rightarrow> int \<Rightarrow> string option \<times> rng" where
  "chooseWord dict g minLen maxLen =
    (let source = wordSource dict minLen maxLen
     in case rng_next g of (u, g') \<Rightarrow>
       (let idx = \<lfloor>u * real (length source)\<rfloor>
        in (if 0 \<le> idx \<and> idx < int (length source) then Some (source ! nat idx) else None, g')))"

text \<open>
  A trie node is \<^verbatim>\<open>{ t, c }\<close>: the complete-word flag and the children, an object without
  prototype keyed by one code unit.
\<close>

datatype trie = Node (node_t: bool) (node_c: "char \<Rightarrow> trie option")

definition emptyNode :: trie where
  "emptyNode = Node False (\<lambda>_. None)"

text \<open>
  The inner loop of \<^verbatim>\<open>buildTrie\<close>: walk down along the word, creating the missing children,
  and set the flag of the node reached.
\<close>

fun insertWord :: "trie \<Rightarrow> string \<Rightarrow> trie" where
  "insertWord (Node t c) [] = Node True c"
| "insertWord (Node t c) (ch # w) =
    Node t (c(ch \<mapsto> insertWord (case c ch of None \<Rightarrow> emptyNode | Some n \<Rightarrow> n) w))"

definition buildTrie :: "string list \<Rightarrow> trie" where
  "buildTrie ws = foldl insertWord emptyNode ws"

text \<open>
  The walk used by the scanner: from a node along a string, one child per character;
  \<^term>\<open>None\<close> when a child is missing.
\<close>

fun walk :: "trie \<Rightarrow> string \<Rightarrow> trie option" where
  "walk n [] = Some n"
| "walk n (ch # w) = (case node_c n ch of None \<Rightarrow> None | Some n' \<Rightarrow> walk n' w)"

definition spells :: "trie \<Rightarrow> string \<Rightarrow> bool" where
  "spells n w = (case walk n w of None \<Rightarrow> False | Some n' \<Rightarrow> node_t n')"

subsection \<open>The world model\<close>

text \<open>
  The systems read the module object \<^verbatim>\<open>prefs\<close> of \<^verbatim>\<open>prefs.js\<close>, a configuration that is meant
  to be edited; the model takes the fields they read as a parameter, so that a theorem holds
  for every setting. \<open>maxActiveWords = 0\<close> stands for a falsy value, which the source
  replaces by \<^verbatim>\<open>Infinity\<close>. The source divides by the fade duration and by the hold
  duration; the model is meant for positive durations (a zero duration gives
  \<^verbatim>\<open>Infinity\<close> or \<^verbatim>\<open>NaN\<close> in the source and \<open>0\<close> here), and the theorems that depend on a
  quotient assume them positive.
\<close>

record prefs =
  fadeDurationRangeSec :: "real \<times> real"
  changeProbabilityPerCycle :: real
  minActiveWords :: nat
  maxActiveWords :: nat
  seedWordsPerMinute :: real
  minWordLength :: int
  maxWordLength :: int
  spotlightRadiusPx :: real
  detectionAlphaThreshold :: real
  holdToCaptureSeconds :: real
  maxSentenceWords :: nat

datatype dir = H | V

text \<open>
  A letter cell \<^verbatim>\<open>{ x, y, char, phase, speed, jitterSeed, fadeT, fadeDir, nextAt, locked }\<close>
  with the staged \<^verbatim>\<open>_nextChar\<close> (\<^term>\<open>None\<close> for \<^verbatim>\<open>undefined\<close>). \<^verbatim>\<open>jitterSeed\<close> is read by the
  renderer only and is left out, as are the \<^verbatim>\<open>debug\<close> counters of the world.
\<close>

record cell =
  cell_x :: real
  cell_y :: real
  cell_char :: char
  phase :: real
  speed :: real
  fadeT :: real
  fadeDir :: int
  nextAt :: real
  locked :: bool
  nextChar :: "char option"

text \<open>The parts \<^verbatim>\<open>{ r, c, idx }\<close> of a placed word and \<^verbatim>\<open>{ r, c, idx, ch }\<close> of a scanned segment.\<close>

record cellRef =
  ref_r :: int
  ref_c :: int
  ref_idx :: int

record segCell =
  seg_r :: int
  seg_c :: int
  seg_idx :: int
  seg_ch :: char

text \<open>
  A placed word (an element of \<^verbatim>\<open>world.words\<close>, made by \<^verbatim>\<open>seedOneWord\<close>) and a candidate (made
  by \<^verbatim>\<open>scanSegmentWithTrie\<close>) are JavaScript objects, and \<^verbatim>\<open>Array.prototype.indexOf\<close> compares
  objects by identity. The identity is the field \<open>oid\<close>: every object literal that the two
  functions evaluate takes the next number of the allocation counter \<open>nextOid\<close> of the world.
\<close>

record placedWord =
  pw_oid :: nat
  pw_word :: string
  pw_r :: int
  pw_c :: int
  pw_dir :: dir
  pw_cells :: "cellRef list"

record candidate =
  cand_oid :: nat
  cand_word :: string
  cand_r :: int
  cand_c :: int
  cand_dir :: dir
  cand_cells :: "segCell list"

record capture =
  active :: bool
  startMs :: real
  wordUnderSpot :: "candidate option"
  progress01 :: real
  key :: "string option"

record mouse =
  mouse_x :: real
  mouse_y :: real
  down :: bool

record grid =
  rows :: nat
  cols :: nat

record world =
  rng :: rng
  grid :: grid
  cells :: "cell list"
  words :: "placedWord list"
  sentence :: "string list"
  capture :: capture
  mouse :: mouse
  trie :: trie
  nextOid :: nat

definition getCellIndex :: "world \<Rightarrow> int \<Rightarrow> int \<Rightarrow> int" where
  "getCellIndex w r c = r * int (cols (grid w)) + c"

text \<open>\<^verbatim>\<open>world.cells[idx]\<close>: \<^term>\<open>None\<close> is \<^verbatim>\<open>undefined\<close>.\<close>

definition cellAt :: "cell list \<Rightarrow> int \<Rightarrow> cell option" where
  "cellAt cs idx = (if 0 \<le> idx \<and> idx < int (length cs) then Some (cs ! nat idx) else None)"

subsection \<open>updateLetters\<close>

text \<open>
  \<^verbatim>\<open>randomGridChar\<close> indexes the alphabet by \<^verbatim>\<open>Math.floor(world.rng() * 26)\<close>, which is one of
  \<open>0..25\<close> for a draw in \<open>[0, 1)\<close>.
\<close>

definition randomGridChar :: "rng \<Rightarrow> char \<times> rng" where
  "randomGridChar g =
    (case rng_next g of (u, g') \<Rightarrow> (''abcdefghijklmnopqrstuvwxyz'' ! nat \<lfloor>u * 26\<rfloor>, g'))"

text \<open>The body of the loop of \<^verbatim>\<open>updateLetters\<close>, for one cell; \<open>now\<close> is \<^verbatim>\<open>performance.now()\<close>.\<close>

definition updateCell :: "prefs \<Rightarrow> real \<Rightarrow> real \<Rightarrow> cell \<Rightarrow> rng \<Rightarrow> cell \<times> rng" where
  "updateCell p now dt cell g =
    (case
      (if fadeDir cell \<noteq> 0 then
         (let d = fadeDir cell in
          case randBetween g (fst (fadeDurationRangeSec p)) (snd (fadeDurationRangeSec p)) of
            (dur, g1) \<Rightarrow>
              (let rate = 1 / dur;
                   cellA = cell\<lparr>fadeT := clamp (fadeT cell + real_of_int d * rate * dt) 0 1\<rparr>
               in if fadeT cellA = 0 \<and> d < 0 then
                    (case nextChar cellA of
                       Some ch \<Rightarrow> (cellA\<lparr>cell_char := ch, nextChar := None, fadeDir := 1\<rparr>, g1)
                     | None \<Rightarrow>
                         (case randomGridChar g1 of (ch, g2) \<Rightarrow>
                            (cellA\<lparr>cell_char := ch, nextChar := None, fadeDir := 1\<rparr>, g2)))
                  else if fadeT cellA = 1 \<and> d > 0 then
                    (case randBetween g1 (fst (fadeDurationRangeSec p))
                            (snd (fadeDurationRangeSec p)) of
                       (dur2, g2) \<Rightarrow> (cellA\<lparr>fadeDir := 0, nextAt := now + dur2 * 1000\<rparr>, g2))
                  else (cellA, g1)))
       else if \<not> locked cell \<and> now \<ge> nextAt cell then
         (case rng_next g of (u, g1) \<Rightarrow>
            if u < changeProbabilityPerCycle p then (cell\<lparr>fadeDir := - 1\<rparr>, g1)
            else (case randBetween g1 (fst (fadeDurationRangeSec p))
                         (snd (fadeDurationRangeSec p)) of
                    (dur, g2) \<Rightarrow> (cell\<lparr>nextAt := now + dur * 1000\<rparr>, g2)))
       else (cell, g))
     of (cell1, g') \<Rightarrow> (cell1\<lparr>phase := phase cell1 + speed cell1 * dt\<rparr>, g'))"

fun updateCells :: "prefs \<Rightarrow> real \<Rightarrow> real \<Rightarrow> cell list \<Rightarrow> rng \<Rightarrow> cell list \<times> rng" where
  "updateCells p now dt [] g = ([], g)"
| "updateCells p now dt (cell # cs) g =
    (case updateCell p now dt cell g of (cell', g1) \<Rightarrow>
       (case updateCells p now dt cs g1 of (cs', g2) \<Rightarrow> (cell' # cs', g2)))"

definition updateLetters :: "prefs \<Rightarrow> real \<Rightarrow> real \<Rightarrow> world \<Rightarrow> world" where
  "updateLetters p now dt w =
    (case updateCells p now dt (cells w) (rng w) of (cs, g) \<Rightarrow> w\<lparr>cells := cs, rng := g\<rparr>)"

subsection \<open>Seeding and eviction\<close>

text \<open>\<^verbatim>\<open>dropOldestWord\<close>: a part whose cell is \<^verbatim>\<open>undefined\<close> is skipped.\<close>

definition unlockCell :: "cell list \<Rightarrow> int \<Rightarrow> cell list" where
  "unlockCell cs idx =
    (case cellAt cs idx of None \<Rightarrow> cs | Some cell \<Rightarrow> cs[nat idx := cell\<lparr>locked := False\<rparr>])"

definition dropOldestWord :: "world \<Rightarrow> world" where
  "dropOldestWord w =
    (case words w of
       [] \<Rightarrow> w
     | pw # rest \<Rightarrow>
         w\<lparr>words := rest, cells := foldl unlockCell (cells w) (map ref_idx (pw_cells pw))\<rparr>)"

definition placementFree :: "world \<Rightarrow> int \<Rightarrow> int \<Rightarrow> nat \<Rightarrow> dir \<Rightarrow> bool" where
  "placementFree w r c len d =
    (if d = H then
       list_all (\<lambda>i. case cellAt (cells w) (getCellIndex w r (c + int i)) of
                        None \<Rightarrow> False | Some cell \<Rightarrow> \<not> locked cell) [0..<len]
     else
       list_all (\<lambda>i. case cellAt (cells w) (getCellIndex w (r + int i) c) of
                        None \<Rightarrow> False | Some cell \<Rightarrow> \<not> locked cell) [0..<len])"

text \<open>
  The body of the placement loops of \<^verbatim>\<open>seedOneWord\<close>. They run after \<^verbatim>\<open>placementFree\<close> has
  found every cell of the run, so the index is inside the array.
\<close>

definition stageCell :: "cell \<Rightarrow> char \<Rightarrow> cell" where
  "stageCell cell ch =
    (if \<not> locked cell then cell\<lparr>fadeDir := - 1, nextChar := Some ch, locked := True\<rparr>
     else cell\<lparr>cell_char := ch, fadeDir := 0, fadeT := 1, locked := True\<rparr>)"

definition partIndex :: "world \<Rightarrow> int \<Rightarrow> int \<Rightarrow> dir \<Rightarrow> nat \<Rightarrow> int" where
  "partIndex w r c d i =
    (if d = H then getCellIndex w r (c + int i) else getCellIndex w (r + int i) c)"

definition placeWord :: "world \<Rightarrow> string \<Rightarrow> int \<Rightarrow> int \<Rightarrow> dir \<Rightarrow> world" where
  "placeWord w word r c d =
    (let cs = foldl (\<lambda>cs i. cs[nat (partIndex w r c d i) :=
                                 stageCell (cs ! nat (partIndex w r c d i)) (word ! i)])
                (cells w) [0..<length word];
         parts = map (\<lambda>i. \<lparr>ref_r = (if d = H then r else r + int i),
                            ref_c = (if d = H then c + int i else c),
                            ref_idx = partIndex w r c d i\<rparr>) [0..<length word]
     in w\<lparr>cells := cs,
          words := words w @ [\<lparr>pw_oid = nextOid w, pw_word = word, pw_r = r, pw_c = c,
                                pw_dir = d, pw_cells = parts\<rparr>],
          nextOid := Suc (nextOid w)\<rparr>)"

text \<open>The attempt loop of \<^verbatim>\<open>seedOneWord\<close>; the first argument counts the attempts left.\<close>

fun seedAttempts :: "nat \<Rightarrow> string \<Rightarrow> world \<Rightarrow> bool \<times> world" where
  "seedAttempts 0 word w = (False, w)"
| "seedAttempts (Suc a) word w =
    (case rng_next (rng w) of (u, g1) \<Rightarrow>
       if \<not> u < 0.5 then
         (case rng_next g1 of (u2, g2) \<Rightarrow>
            (let r = \<lfloor>u2 * real (rows (grid w))\<rfloor>;
                 maxCStart = int (cols (grid w)) - int (length word)
             in if maxCStart < 0 then (False, w\<lparr>rng := g2\<rparr>)
                else
                  (case rng_next g2 of (u3, g3) \<Rightarrow>
                     (let c = \<lfloor>u3 * real_of_int (maxCStart + 1)\<rfloor>
                      in if \<not> placementFree w r c (length word) H
                         then seedAttempts a word (w\<lparr>rng := g3\<rparr>)
                         else (True, placeWord (w\<lparr>rng := g3\<rparr>) word r c H)))))
       else
         (case rng_next g1 of (u2, g2) \<Rightarrow>
            (let c = \<lfloor>u2 * real (cols (grid w))\<rfloor>;
                 maxRStart = int (rows (grid w)) - int (length word)
             in if maxRStart < 0 then (False, w\<lparr>rng := g2\<rparr>)
                else
                  (case rng_next g2 of (u3, g3) \<Rightarrow>
                     (let r = \<lfloor>u3 * real_of_int (maxRStart + 1)\<rfloor>
                      in if \<not> placementFree w r c (length word) V
                         then seedAttempts a word (w\<lparr>rng := g3\<rparr>)
                         else (True, placeWord (w\<lparr>rng := g3\<rparr>) word r c V))))))"

text \<open>
  \<^verbatim>\<open>seedOneWord\<close>: \<^term>\<open>None\<close> is the \<^verbatim>\<open>TypeError\<close> of \<^verbatim>\<open>word.length\<close> when \<^verbatim>\<open>chooseWord\<close> returned
  \<^verbatim>\<open>undefined\<close>.
\<close>

definition seedOneWord :: "prefs \<Rightarrow> string list \<Rightarrow> world \<Rightarrow> (bool \<times> world) option" where
  "seedOneWord p dict w =
    (case chooseWord dict (rng w) (minWordLength p) (maxWordLength p) of
       (None, g) \<Rightarrow> None
     | (Some word, g) \<Rightarrow> Some (seedAttempts 40 word (w\<lparr>rng := g\<rparr>)))"

text \<open>The loops of \<^verbatim>\<open>ensureWordSeeding\<close>: eviction down to the maximum, then seeding up to
  the minimum with at most 20 rounds (the second argument counts the rounds left).\<close>

function evictLoop :: "prefs \<Rightarrow> world \<Rightarrow> world" where
  "evictLoop p w =
    (if maxActiveWords p \<noteq> 0 \<and> length (words w) > maxActiveWords p
     then evictLoop p (dropOldestWord w) else w)"
  by pat_completeness auto
termination
  by (relation "measure (\<lambda>(p, w). length (words w))")
     (auto simp: dropOldestWord_def split: list.splits)

declare evictLoop.simps [simp del]

fun seedLoop :: "prefs \<Rightarrow> string list \<Rightarrow> nat \<Rightarrow> world \<Rightarrow> world option" where
  "seedLoop p dict 0 w = Some w"
| "seedLoop p dict (Suc n) w =
    (if length (words w) < minActiveWords p then
       (case seedOneWord p dict w of
          None \<Rightarrow> None
        | Some (ok, w') \<Rightarrow> if \<not> ok then Some w' else seedLoop p dict n w')
     else Some w)"

definition ensureWordSeeding :: "prefs \<Rightarrow> string list \<Rightarrow> real \<Rightarrow> world \<Rightarrow> world option" where
  "ensureWordSeeding p dict dt w =
    (case seedLoop p dict 20 (evictLoop p w) of
       None \<Rightarrow> None
     | Some w2 \<Rightarrow>
         (let targetPerSec = seedWordsPerMinute p / 60;
              pr = clamp (targetPerSec * dt) 0 0.75
          in if maxActiveWords p = 0 \<or> length (words w2) < maxActiveWords p then
               (case rng_next (rng w2) of (u, g) \<Rightarrow>
                  if u < pr then
                    (case seedOneWord p dict (w2\<lparr>rng := g\<rparr>) of
                       None \<Rightarrow> None | Some (ok, w3) \<Rightarrow> Some w3)
                  else Some (w2\<lparr>rng := g\<rparr>))
             else Some w2))"

subsection \<open>The spotlight scanner\<close>

definition inside :: "prefs \<Rightarrow> world \<Rightarrow> real \<Rightarrow> real \<Rightarrow> bool" where
  "inside p w x y =
    (let r2 = spotlightRadiusPx p * spotlightRadiusPx p;
         dx = x - mouse_x (mouse w); dy = y - mouse_y (mouse w)
     in dx * dx + dy * dy \<le> r2)"

definition inCircle :: "prefs \<Rightarrow> world \<Rightarrow> cell \<Rightarrow> bool" where
  "inCircle p w cell =
    (inside p w (cell_x cell) (cell_y cell) \<and> clamp (fadeT cell) 0 1 \<ge> detectionAlphaThreshold p)"

text \<open>
  The array \<^verbatim>\<open>include\<close>, filled by the two nested loops over the grid; an index that was
  never written reads \<^verbatim>\<open>undefined\<close>, which is falsy.
\<close>

definition includeRow :: "prefs \<Rightarrow> world \<Rightarrow> (int \<Rightarrow> bool) \<Rightarrow> nat \<Rightarrow> (int \<Rightarrow> bool)" where
  "includeRow p w inc ri =
    foldl (\<lambda>inc ci. inc(getCellIndex w (int ri) (int ci) :=
                          inCircle p w (cells w ! nat (getCellIndex w (int ri) (int ci)))))
      inc [0..<cols (grid w)]"

definition includeAll :: "prefs \<Rightarrow> world \<Rightarrow> (int \<Rightarrow> bool)" where
  "includeAll p w = foldl (includeRow p w) (\<lambda>_. False) [0..<rows (grid w)]"

text \<open>
  \<^verbatim>\<open>scanSegmentWithTrie\<close>. The inner loop over \<open>j\<close> walks the trie from the cell \<open>first\<close>
  (\<^verbatim>\<open>seg[i]\<close>) with the word read so far and the cells taken so far (\<^verbatim>\<open>seg.slice(i, j + 1)\<close>);
  it stops at a missing child. A pushed candidate takes the next object identity after
  \<open>base\<close>, the counter when the scan began with an empty \<^verbatim>\<open>candidates\<close> array.
\<close>

fun scanFrom ::
  "nat \<Rightarrow> segCell \<Rightarrow> trie \<Rightarrow> string \<Rightarrow> segCell list \<Rightarrow> segCell list \<Rightarrow> candidate list
    \<Rightarrow> candidate list" where
  "scanFrom base first node word taken [] out = out"
| "scanFrom base first node word taken (sc # rest) out =
    (case node_c node (seg_ch sc) of
       None \<Rightarrow> out
     | Some node' \<Rightarrow>
         scanFrom base first node' (word @ [seg_ch sc]) (taken @ [sc]) rest
           (if node_t node' then
              out @ [\<lparr>cand_oid = base + length out, cand_word = word @ [seg_ch sc],
                      cand_r = seg_r first, cand_c = seg_c first,
                      cand_dir = (if seg_r first = seg_r sc then H else V),
                      cand_cells = taken @ [sc]\<rparr>]
            else out))"

fun scanSegmentWithTrie :: "nat \<Rightarrow> segCell list \<Rightarrow> trie \<Rightarrow> candidate list \<Rightarrow> candidate list" where
  "scanSegmentWithTrie base [] tr out = out"
| "scanSegmentWithTrie base (sc # rest) tr out =
    scanSegmentWithTrie base rest tr (scanFrom base sc tr [] [] (sc # rest) out)"

definition inBounds :: "world \<Rightarrow> int \<Rightarrow> int \<Rightarrow> bool" where
  "inBounds w r c = (r \<ge> 0 \<and> r < int (rows (grid w)) \<and> c \<ge> 0 \<and> c < int (cols (grid w)))"

text \<open>
  The three loops of \<^verbatim>\<open>scanLine\<close>. With the direction \<open>(0, 0)\<close> and a start inside the grid the
  source never leaves its second loop; \<open>scanLine\<close> gives \<^term>\<open>None\<close> there, and the loops
  below are entered with another direction only (their test of the direction makes the
  recursion well-founded). \<open>stepsLeft\<close> counts the cells from a position to the edge of the
  grid along the direction.
\<close>

definition stepsLeft :: "world \<Rightarrow> int \<Rightarrow> int \<Rightarrow> int \<Rightarrow> int \<Rightarrow> nat" where
  "stepsLeft w dr dc r c =
    (if dr > 0 then nat (int (rows (grid w)) - r)
     else if dr < 0 then nat (r + 1)
     else if dc > 0 then nat (int (cols (grid w)) - c)
     else nat (c + 1))"

function lineStart :: "world \<Rightarrow> int \<Rightarrow> int \<Rightarrow> int \<Rightarrow> int \<Rightarrow> int \<times> int" where
  "lineStart w dr dc r c =
    (if (dr \<noteq> 0 \<or> dc \<noteq> 0) \<and> inBounds w (r - dr) (c - dc)
     then lineStart w dr dc (r - dr) (c - dc) else (r, c))"
  by pat_completeness auto
termination
  by (relation "measure (\<lambda>(w, dr, dc, r, c). stepsLeft w (- dr) (- dc) r c)")
     (auto simp: stepsLeft_def inBounds_def)

declare lineStart.simps [simp del]

text \<open>The object \<^verbatim>\<open>{ r, c, idx, ch }\<close> that the segment loop pushes for the cell at \<open>(r, c)\<close>.\<close>

definition segCellAt :: "world \<Rightarrow> int \<Rightarrow> int \<Rightarrow> segCell" where
  "segCellAt w r c =
    \<lparr>seg_r = r, seg_c = c, seg_idx = getCellIndex w r c,
     seg_ch = cell_char (cells w ! nat (getCellIndex w r c))\<rparr>"

function segLoop ::
  "world \<Rightarrow> (int \<Rightarrow> bool) \<Rightarrow> int \<Rightarrow> int \<Rightarrow> int \<Rightarrow> int \<Rightarrow> segCell list
    \<Rightarrow> segCell list \<times> int \<times> int" where
  "segLoop w inc dr dc r c seg =
    (if (dr \<noteq> 0 \<or> dc \<noteq> 0) \<and> inBounds w r c \<and> inc (getCellIndex w r c)
     then segLoop w inc dr dc (r + dr) (c + dc) (seg @ [segCellAt w r c])
     else (seg, r, c))"
  by pat_completeness auto
termination
  by (relation "measure (\<lambda>(w, inc, dr, dc, r, c, seg). stepsLeft w dr dc r c)")
     (auto simp: stepsLeft_def inBounds_def)

declare segLoop.simps [simp del]

text \<open>The segment loop only moves along the direction, so it never moves away from the edge.\<close>

lemma segLoop_stepsLeft:
  "segLoop w inc dr dc r c seg = (seg', r', c') \<Longrightarrow>
   stepsLeft w dr dc r' c' \<le> stepsLeft w dr dc r c"
proof (induction w inc dr dc r c seg rule: segLoop.induct)
  case (1 w inc dr dc r c seg)
  show ?case
  proof (cases "(dr \<noteq> 0 \<or> dc \<noteq> 0) \<and> inBounds w r c \<and> inc (getCellIndex w r c)")
    case True
    with "1.prems" have "stepsLeft w dr dc r' c' \<le> stepsLeft w dr dc (r + dr) (c + dc)"
      by (intro "1.IH") (simp_all add: segLoop.simps [of w inc dr dc r c])
    also from True have "\<dots> \<le> stepsLeft w dr dc r c"
      by (auto simp: stepsLeft_def inBounds_def)
    finally show ?thesis .
  next
    case False
    with "1.prems" show ?thesis
      by (subst (asm) segLoop.simps) (auto split: if_splits)
  qed
qed

lemma segLoop_advance:
  assumes dir: "dr \<noteq> 0 \<or> dc \<noteq> 0" and inb: "inBounds w r c"
    and res: "segLoop w inc dr dc r c [] = (seg, r', c')"
  shows "stepsLeft w dr dc (r' + dr) (c' + dc) < stepsLeft w dr dc r c"
proof (cases "inc (getCellIndex w r c)")
  case True
  with dir inb res have "segLoop w inc dr dc (r + dr) (c + dc) ([] @ [segCellAt w r c]) = (seg, r', c')"
    by (subst (asm) segLoop.simps) (auto split: if_splits)
  then have "stepsLeft w dr dc r' c' \<le> stepsLeft w dr dc (r + dr) (c + dc)"
    by (rule segLoop_stepsLeft)
  moreover from dir inb have "stepsLeft w dr dc (r + dr) (c + dc) < stepsLeft w dr dc r c"
    by (auto simp: stepsLeft_def inBounds_def)
  moreover have "stepsLeft w dr dc (r' + dr) (c' + dc) \<le> stepsLeft w dr dc r' c'"
    using dir by (auto simp: stepsLeft_def)
  ultimately show ?thesis by linarith
next
  case False
  with res have "r' = r" "c' = c"
    by (simp_all add: segLoop.simps [of w inc dr dc r c])
  with dir inb show ?thesis
    by (auto simp: stepsLeft_def inBounds_def)
qed

function lineLoop ::
  "nat \<Rightarrow> world \<Rightarrow> (int \<Rightarrow> bool) \<Rightarrow> int \<Rightarrow> int \<Rightarrow> int \<Rightarrow> int \<Rightarrow> candidate list
    \<Rightarrow> candidate list" where
  "lineLoop base w inc dr dc r c out =
    (if (dr \<noteq> 0 \<or> dc \<noteq> 0) \<and> inBounds w r c then
       (case segLoop w inc dr dc r c [] of
          (seg, r', c') \<Rightarrow>
            lineLoop base w inc dr dc (r' + dr) (c' + dc)
              (if length seg \<noteq> 0 then scanSegmentWithTrie base seg (trie w) out else out))
     else out)"
  by pat_completeness auto
termination
  by (relation "measure (\<lambda>(base, w, inc, dr, dc, r, c, out). stepsLeft w dr dc r c)")
     (auto intro: segLoop_advance [OF _ _ sym])

declare lineLoop.simps [simp del]

text \<open>
  \<^verbatim>\<open>scanLine(world, include, rStart, cStart, dr, dc, out)\<close>; \<^term>\<open>None\<close> when the source does
  not return.
\<close>

definition scanLine ::
  "nat \<Rightarrow> world \<Rightarrow> (int \<Rightarrow> bool) \<Rightarrow> int \<Rightarrow> int \<Rightarrow> int \<Rightarrow> int \<Rightarrow> candidate list
    \<Rightarrow> candidate list option" where
  "scanLine base w inc rStart cStart dr dc out =
    (if dr = 0 \<and> dc = 0 \<and> inBounds w rStart cStart then None
     else (case lineStart w dr dc rStart cStart of
             (r, c) \<Rightarrow> Some (lineLoop base w inc dr dc r c out)))"

text \<open>The loop over the rows in \<^verbatim>\<open>wordUnderSpotlight\<close>: one horizontal \<^verbatim>\<open>scanLine\<close> per row.\<close>

fun scanRows ::
  "nat \<Rightarrow> world \<Rightarrow> (int \<Rightarrow> bool) \<Rightarrow> nat list \<Rightarrow> candidate list \<Rightarrow> candidate list option" where
  "scanRows base w inc [] out = Some out"
| "scanRows base w inc (rI # rs) out =
    (case scanLine base w inc (int rI) 0 0 1 out of
       None \<Rightarrow> None
     | Some out' \<Rightarrow> scanRows base w inc rs out')"

text \<open>
  The array \<^verbatim>\<open>candidates\<close> of \<^verbatim>\<open>wordUnderSpotlight\<close>, before the filter by length. The first
  loop reads \<^verbatim>\<open>cell.fadeT\<close> of every grid position, a \<^verbatim>\<open>TypeError\<close> when the cell array is
  shorter than the grid.
\<close>

definition scanCandidates :: "prefs \<Rightarrow> world \<Rightarrow> candidate list option" where
  "scanCandidates p w =
    (if \<not> rows (grid w) * cols (grid w) \<le> length (cells w) then None
     else scanRows (nextOid w) w (includeAll p w) [0..<rows (grid w)] [])"

text \<open>
  A row run: \<open>n\<close> cells of the row \<open>r\<close> from the column \<open>a\<close> on, inside the grid, every one of
  them inside the spotlight and visible enough (included); the string that the run spells;
  and a candidate as \<^verbatim>\<open>scanSegmentWithTrie\<close> builds it for the run.
\<close>

definition rowRun :: "prefs \<Rightarrow> world \<Rightarrow> nat \<Rightarrow> nat \<Rightarrow> nat \<Rightarrow> bool" where
  "rowRun p w r a n =
    (r < rows (grid w) \<and> 0 < n \<and> a + n \<le> cols (grid w) \<and>
     list_all (\<lambda>i. inCircle p w (cells w ! (r * cols (grid w) + a + i))) [0..<n])"

definition rowString :: "world \<Rightarrow> nat \<Rightarrow> nat \<Rightarrow> nat \<Rightarrow> string" where
  "rowString w r a n = map (\<lambda>i. cell_char (cells w ! (r * cols (grid w) + a + i))) [0..<n]"

definition runCandidate :: "world \<Rightarrow> candidate \<Rightarrow> nat \<Rightarrow> nat \<Rightarrow> nat \<Rightarrow> bool" where
  "runCandidate w cand r a n =
    (cand_word cand = rowString w r a n \<and> cand_r cand = int r \<and> cand_c cand = int a \<and>
     cand_dir cand = H \<and>
     cand_cells cand = map (\<lambda>i. segCellAt w (int r) (int (a + i))) [0..<n])"

text \<open>
  The end of \<^verbatim>\<open>wordUnderSpotlight\<close>, for a non-empty \<^verbatim>\<open>filtered\<close>: the stable sort by
  descending length, the candidates as long as the first, and the random choice among them.
\<close>

definition pickLongest :: "candidate list \<Rightarrow> rng \<Rightarrow> candidate option \<times> rng" where
  "pickLongest filtered g =
    (let sorted = sort_key (\<lambda>c. - int (length (cand_word c))) filtered;
         longestLen = length (cand_word (hd sorted));
         longest = filter (\<lambda>c. length (cand_word c) = longestLen) sorted
     in case rng_next g of (u, g') \<Rightarrow>
          (let i = \<lfloor>u * real (length longest)\<rfloor>
           in (if 0 \<le> i \<and> i < int (length longest) then Some (longest ! nat i) else None, g')))"

text \<open>
  \<^verbatim>\<open>wordUnderSpotlight\<close>: the scan, the filter by the length bounds and the choice. The result
  carries the world with the generator advanced and the candidate objects allocated.
\<close>

definition wordUnderSpotlight :: "prefs \<Rightarrow> world \<Rightarrow> (candidate option \<times> world) option" where
  "wordUnderSpotlight p w =
    (case scanCandidates p w of
       None \<Rightarrow> None
     | Some candidates \<Rightarrow>
         (let w1 = w\<lparr>nextOid := nextOid w + length candidates\<rparr>;
              filtered = filter (\<lambda>c. lengthOk (minWordLength p) (maxWordLength p) (cand_word c))
                           candidates
          in if length filtered = 0 then Some (None, w1)
             else (case pickLongest filtered (rng w1) of
                     (chosen, g) \<Rightarrow> Some (chosen, w1\<lparr>rng := g\<rparr>))))"

subsection \<open>The capture machine\<close>

text \<open>
  \<^verbatim>\<open>candidateKey\<close>: the word, a colon, and the cell indices in decimal joined by dashes; the
  empty string for \<^verbatim>\<open>null\<close>.
\<close>

fun showNat :: "nat \<Rightarrow> string" where
  "showNat n =
    (if n < 10 then [''0123456789'' ! n]
     else showNat (n div 10) @ [''0123456789'' ! (n mod 10)])"

declare showNat.simps [simp del]

definition showInt :: "int \<Rightarrow> string" where
  "showInt i = (if i < 0 then ''-'' @ showNat (nat (- i)) else showNat (nat i))"

fun joinWith :: "string \<Rightarrow> string list \<Rightarrow> string" where
  "joinWith sep [] = []"
| "joinWith sep [x] = x"
| "joinWith sep (x # y # ys) = x @ sep @ joinWith sep (y # ys)"

definition candidateKey :: "candidate option \<Rightarrow> string" where
  "candidateKey c =
    (case c of
       None \<Rightarrow> []
     | Some cand \<Rightarrow>
         cand_word cand @ '':'' @ joinWith ''-'' (map (\<lambda>part. showInt (seg_idx part)) (cand_cells cand)))"

text \<open>
  \<^verbatim>\<open>finalizeCapture\<close>. The loop over the parts writes \<^verbatim>\<open>cell.locked\<close> without a test of the
  cell: a part outside the array is a \<^verbatim>\<open>TypeError\<close>. \<^verbatim>\<open>world.words.indexOf(wordObj)\<close> is the
  first position that holds the very object \<^verbatim>\<open>wordObj\<close>, or \<open>-1\<close>.
\<close>

fun releaseCells :: "cell list \<Rightarrow> int list \<Rightarrow> cell list option" where
  "releaseCells cs [] = Some cs"
| "releaseCells cs (i # rest) =
    (case cellAt cs i of
       None \<Rightarrow> None
     | Some cell \<Rightarrow>
         releaseCells (cs[nat i := cell\<lparr>locked := False, fadeDir := - 1, nextChar := None\<rparr>]) rest)"

definition indexOfWord :: "placedWord list \<Rightarrow> candidate \<Rightarrow> int" where
  "indexOfWord ws wordObj =
    (case filter (\<lambda>i. pw_oid (ws ! i) = cand_oid wordObj) [0..<length ws] of
       [] \<Rightarrow> - 1
     | i # rest \<Rightarrow> int i)"

text \<open>The two lines that push a word on \<^verbatim>\<open>world.sentence\<close> and shift it when it is too long.\<close>

definition pushWord :: "nat \<Rightarrow> string list \<Rightarrow> string \<Rightarrow> string list" where
  "pushWord cap sent word =
    (let pushed = sent @ [word] in if length pushed > cap then tl pushed else pushed)"

definition finalizeCapture :: "prefs \<Rightarrow> world \<Rightarrow> candidate \<Rightarrow> world option" where
  "finalizeCapture p w wordObj =
    (case releaseCells (cells w) (map seg_idx (cand_cells wordObj)) of
       None \<Rightarrow> None
     | Some cs \<Rightarrow>
         (let sent = pushWord (maxSentenceWords p) (sentence w) (cand_word wordObj);
              idx = indexOfWord (words w) wordObj;
              ws = (if idx \<ge> 0 then take (nat idx) (words w) @ drop (nat idx + 1) (words w)
                    else words w)
          in Some (w\<lparr>cells := cs, sentence := sent, words := ws\<rparr>)))"

text \<open>
  The progress of a hold that started at \<open>start\<close>, read at the clock reading \<open>now\<close>: the
  expression \<^verbatim>\<open>clamp((performance.now() - startMs) / (prefs.holdToCaptureSeconds * 1000), 0, 1)\<close>
  in double arithmetic. \<^verbatim>\<open>Math.max\<close> and \<^verbatim>\<open>Math.min\<close> do not round.
\<close>

definition holdProgress :: "prefs \<Rightarrow> real \<Rightarrow> real \<Rightarrow> real" where
  "holdProgress p start now =
    clamp (fl (fl (now - start) / fl (holdToCaptureSeconds p * 1000))) 0 1"

text \<open>
  \<^verbatim>\<open>updateCapture\<close>; \<open>now\<close> is \<^verbatim>\<open>performance.now()\<close>, which one call reads at most once.
  The commit passes \<^verbatim>\<open>world.capture.wordUnderSpot\<close> to \<^verbatim>\<open>finalizeCapture\<close>, which reads its cells: a
  \<^verbatim>\<open>TypeError\<close> if it is \<^verbatim>\<open>null\<close>.
\<close>

definition updateCapture :: "prefs \<Rightarrow> real \<Rightarrow> real \<Rightarrow> world \<Rightarrow> world option" where
  "updateCapture p now dt w =
    (case wordUnderSpotlight p w of
       None \<Rightarrow> None
     | Some (detected, w1) \<Rightarrow>
         (let cap = capture w1;
              current = (if active cap \<and> wordUnderSpot cap \<noteq> None then wordUnderSpot cap
                         else detected);
              currentKey = candidateKey current
          in if down (mouse w1) \<and> current \<noteq> None then
               (if \<not> active cap \<or> key cap \<noteq> Some currentKey then
                  Some (w1\<lparr>capture := cap\<lparr>active := True, wordUnderSpot := current,
                                            key := Some currentKey, startMs := now,
                                            progress01 := 0\<rparr>\<rparr>)
                else
                  (let prog = holdProgress p (startMs cap) now
                   in if prog \<ge> 1 then
                        (case wordUnderSpot cap of
                           None \<Rightarrow> None
                         | Some wordObj \<Rightarrow>
                             (case finalizeCapture p (w1\<lparr>capture := cap\<lparr>progress01 := prog\<rparr>\<rparr>)
                                     wordObj of
                                None \<Rightarrow> None
                              | Some w2 \<Rightarrow>
                                  Some (w2\<lparr>capture := (capture w2)\<lparr>active := False,
                                             wordUnderSpot := None, key := Some [],
                                             progress01 := 0\<rparr>\<rparr>)))
                      else Some (w1\<lparr>capture := cap\<lparr>progress01 := prog\<rparr>\<rparr>)))
             else
               Some (w1\<lparr>capture := cap\<lparr>active := False, wordUnderSpot := None,
                                         key := Some [], progress01 := 0\<rparr>\<rparr>)))"

text \<open>A sequence of commits: \<^verbatim>\<open>finalizeCapture\<close> for one captured candidate after the other.\<close>

fun captureAll :: "prefs \<Rightarrow> world \<Rightarrow> candidate list \<Rightarrow> world option" where
  "captureAll p w [] = Some w"
| "captureAll p w (c # cs) =
    (case finalizeCapture p w c of None \<Rightarrow> None | Some w' \<Rightarrow> captureAll p w' cs)"

text \<open>The capture state after a release or a commit: the four assignments of \<^verbatim>\<open>updateCapture\<close>.\<close>

definition idleCapture :: "capture \<Rightarrow> capture" where
  "idleCapture cap = cap\<lparr>active := False, wordUnderSpot := None, key := Some [], progress01 := 0\<rparr>"

text \<open>
  A hold in progress on the candidate \<open>frozen\<close> since the time \<open>s\<close>, with the button down; and a
  run of consecutive \<^verbatim>\<open>updateCapture\<close> calls at the given clock readings.
\<close>

definition holding :: "world \<Rightarrow> candidate \<Rightarrow> real \<Rightarrow> bool" where
  "holding w frozen s =
    (active (capture w) \<and> wordUnderSpot (capture w) = Some frozen \<and>
     key (capture w) = Some (candidateKey (Some frozen)) \<and> startMs (capture w) = s \<and>
     down (mouse w))"

fun captureRun :: "prefs \<Rightarrow> real \<Rightarrow> world \<Rightarrow> real list \<Rightarrow> world option" where
  "captureRun p dt w [] = Some w"
| "captureRun p dt w (t # ts) =
    (case updateCapture p t dt w of None \<Rightarrow> None | Some w' \<Rightarrow> captureRun p dt w' ts)"

subsection \<open>The frame\<close>

text \<open>
  \<^verbatim>\<open>step(now)\<close> without the drawing: \<open>lastMs\<close> is the module variable that the frame reads
  and then sets to \<open>now\<close>; the clock readings inside the frame are taken at \<open>now\<close>.
  \<open>runFrames\<close> runs one \<^verbatim>\<open>step\<close> per frame; the mouse handlers run between the frames, and
  each frame comes with the mouse state they have left.
\<close>

definition step :: "prefs \<Rightarrow> string list \<Rightarrow> real \<Rightarrow> real \<Rightarrow> world \<Rightarrow> world option" where
  "step p dict lastMs now w =
    (let dt = min 0.05 (max 0 ((now - lastMs) / 1000))
     in case ensureWordSeeding p dict dt (updateLetters p now dt w) of
          None \<Rightarrow> None
        | Some w2 \<Rightarrow> updateCapture p now dt w2)"

fun runFrames ::
  "prefs \<Rightarrow> string list \<Rightarrow> real \<Rightarrow> world \<Rightarrow> (real \<times> mouse) list \<Rightarrow> world option" where
  "runFrames p dict lastMs w [] = Some w"
| "runFrames p dict lastMs w ((now, m) # fs) =
    (case step p dict lastMs now (w\<lparr>mouse := m\<rparr>) of
       None \<Rightarrow> None
     | Some w' \<Rightarrow> runFrames p dict now w' fs)"

subsection \<open>Example worlds\<close>

text \<open>
  Worlds of the shape that \<^verbatim>\<open>createWorld\<close> builds, for the examples below: every cell steady,
  fully visible and unlocked, with its anchor at the middle of a 10 by 10 pixel box; no
  placed word, an empty sentence, no capture; the trie of the dictionary. The letters of
  the grid are given row by row.
\<close>

definition mkCell :: "real \<Rightarrow> real \<Rightarrow> char \<Rightarrow> cell" where
  "mkCell x y ch =
    \<lparr>cell_x = x, cell_y = y, cell_char = ch, phase = 0, speed = 1, fadeT = 1, fadeDir = 0,
     nextAt = 1000000, locked = False, nextChar = None\<rparr>"

definition gridCells :: "nat \<Rightarrow> nat \<Rightarrow> string \<Rightarrow> cell list" where
  "gridCells nr nc letters =
    map (\<lambda>i. mkCell (real (i mod nc) * 10 + 5) (real (i div nc) * 10 + 5) (letters ! i))
      [0..<nr * nc]"

definition mkWorld :: "nat \<Rightarrow> nat \<Rightarrow> string \<Rightarrow> string list \<Rightarrow> rng \<Rightarrow> world" where
  "mkWorld nr nc letters dict g =
    \<lparr>rng = g, grid = \<lparr>rows = nr, cols = nc\<rparr>, cells = gridCells nr nc letters, words = [],
     sentence = [],
     capture = \<lparr>active = False, startMs = 0, wordUnderSpot = None, progress01 = 0, key = None\<rparr>,
     mouse = \<lparr>mouse_x = 0, mouse_y = 0, down = False\<rparr>, trie = buildTrie dict, nextOid = 0\<rparr>"

definition demoPrefs :: prefs where
  "demoPrefs =
    \<lparr>fadeDurationRangeSec = (1 / 20, 1 / 20), changeProbabilityPerCycle = 1 / 2,
     minActiveWords = 1, maxActiveWords = 2, seedWordsPerMinute = 1200, minWordLength = 3,
     maxWordLength = 3, spotlightRadiusPx = 12, detectionAlphaThreshold = 1 / 2,
     holdToCaptureSeconds = 1, maxSentenceWords = 2\<rparr>"

text \<open>A candidate as \<^verbatim>\<open>scanSegmentWithTrie\<close> builds it for a word read along a row.\<close>

definition rowCandidate :: "nat \<Rightarrow> nat \<Rightarrow> string \<Rightarrow> int \<Rightarrow> int \<Rightarrow> candidate" where
  "rowCandidate nc oid word r c =
    \<lparr>cand_oid = oid, cand_word = word, cand_r = r, cand_c = c, cand_dir = H,
     cand_cells = map (\<lambda>i. \<lparr>seg_r = r, seg_c = c + int i, seg_idx = r * int nc + c + int i,
                             seg_ch = word ! i\<rparr>) [0..<length word]\<rparr>"

text \<open>The parts of a candidate lie inside the cell array.\<close>

definition validParts :: "world \<Rightarrow> candidate \<Rightarrow> bool" where
  "validParts w c =
    (\<forall>part \<in> set (cand_cells c). 0 \<le> seg_idx part \<and> seg_idx part < int (length (cells w)))"

text \<open>The fade fraction after one fade step of \<^verbatim>\<open>updateLetters\<close>, for a cell with a direction.\<close>

definition fadeStep :: "prefs \<Rightarrow> real \<Rightarrow> cell \<Rightarrow> rng \<Rightarrow> real" where
  "fadeStep p dt c g =
    clamp (fadeT c + real_of_int (fadeDir c) *
      (1 / fst (randBetween g (fst (fadeDurationRangeSec p)) (snd (fadeDurationRangeSec p)))) * dt) 0 1"

text \<open>A world with a locked cell in the middle of its fade-out and a locked steady cell
  whose mutation time has passed.\<close>

definition fadingWorld :: world where
  "fadingWorld =
    (mkWorld 4 3 ''redxxxxxxxxx'' [''red''] (\<lambda>_. 1 / 2))
      \<lparr>cells := (gridCells 4 3 ''redxxxxxxxxx'')
         [0 := (mkCell 5 5 CHR ''r'')\<lparr>fadeDir := - 1, fadeT := 1 / 2, nextChar := Some CHR ''c'',
                                         locked := True\<rparr>,
          1 := (mkCell 15 5 CHR ''e'')\<lparr>locked := True, nextAt := 0\<rparr>]\<rparr>"

text \<open>
  The scenario of the specification: a 5 by 5 grid, the dictionary \<^verbatim>\<open>["cat"]\<close>, one placed word
  "cat" on row 2, columns 0 to 2, its three cells locked, steady and fully visible; the
  pointer over the middle of the word with the button down, and a spotlight of radius 12
  that covers the three cells. \<open>lockCells\<close> sets the lock flag of the cells of a run.
\<close>

definition lockCells :: "cell list \<Rightarrow> nat list \<Rightarrow> cell list" where
  "lockCells cs ixs = foldl (\<lambda>cs i. cs[i := (cs ! i)\<lparr>locked := True\<rparr>]) cs ixs"

definition rowWord :: "nat \<Rightarrow> nat \<Rightarrow> string \<Rightarrow> int \<Rightarrow> int \<Rightarrow> placedWord" where
  "rowWord nc oid word r c =
    \<lparr>pw_oid = oid, pw_word = word, pw_r = r, pw_c = c, pw_dir = H,
     pw_cells = map (\<lambda>i. \<lparr>ref_r = r, ref_c = c + int i, ref_idx = r * int nc + c + int i\<rparr>)
                  [0..<length word]\<rparr>"

definition catWorld :: world where
  "catWorld =
    (mkWorld 5 5 ''xxxxxxxxxxcatxxxxxxxxxxxx'' [''cat''] (\<lambda>_. 0))
      \<lparr>cells := lockCells (gridCells 5 5 ''xxxxxxxxxxcatxxxxxxxxxxxx'') [10, 11, 12],
       words := [rowWord 5 2 ''cat'' 2 0],
       mouse := \<lparr>mouse_x = 15, mouse_y = 25, down = True\<rparr>,
       nextOid := 3\<rparr>"

text \<open>
  The same scenario one frame into a hold on the scanned candidate "cat" (\<open>catHolding\<close>); and
  a hold whose word has mutated away (\<open>carWorld\<close>): the hold was started on "cat" in the first
  row of a 4 by 3 grid, the dictionary has "cat" and "car", and the third letter has since
  become an "r".
\<close>

definition catHolding :: world where
  "catHolding =
    catWorld
      \<lparr>capture := \<lparr>active = True, startMs = 0,
                    wordUnderSpot = Some (rowCandidate 5 3 ''cat'' 2 0), progress01 = 0,
                    key = Some (candidateKey (Some (rowCandidate 5 3 ''cat'' 2 0)))\<rparr>,
       nextOid := 4\<rparr>"

definition carWorld :: world where
  "carWorld =
    (mkWorld 4 3 ''carxxxxxxxxx'' [''cat'', ''car''] (\<lambda>_. 0))
      \<lparr>capture := \<lparr>active = True, startMs = 0,
                    wordUnderSpot = Some (rowCandidate 3 0 ''cat'' 0 0), progress01 = 0,
                    key = Some (candidateKey (Some (rowCandidate 3 0 ''cat'' 0 0)))\<rparr>,
       mouse := \<lparr>mouse_x = 15, mouse_y = 5, down = True\<rparr>,
       nextOid := 2\<rparr>"

text \<open>
  A fresh 4 by 3 world over the dictionary of \<^verbatim>\<open>words.js\<close>, with cells that do not jitter and
  a generator that always returns 7/10; and five frames, at 50, 100, 150, 1150 and 1200 ms,
  with the pointer over the middle of row 2 and the button down from the third frame on.
  With \<open>demoPrefs\<close> only "red" has a length within the bounds.
\<close>

definition seedWorld :: world where
  "seedWorld =
    (mkWorld 4 3 ''xxxxxxxxxxxx'' DICTIONARY (\<lambda>_. 7 / 10))
      \<lparr>cells := map (\<lambda>c. c\<lparr>speed := 0\<rparr>) (gridCells 4 3 ''xxxxxxxxxxxx''), nextOid := 10\<rparr>"

definition seedFrames :: "(real \<times> mouse) list" where
  "seedFrames =
    [(50, \<lparr>mouse_x = 15, mouse_y = 25, down = False\<rparr>),
     (100, \<lparr>mouse_x = 15, mouse_y = 25, down = False\<rparr>),
     (150, \<lparr>mouse_x = 15, mouse_y = 25, down = True\<rparr>),
     (1150, \<lparr>mouse_x = 15, mouse_y = 25, down = True\<rparr>),
     (1200, \<lparr>mouse_x = 15, mouse_y = 25, down = True\<rparr>)]"

text \<open>
  The states that \<open>seedWorld\<close> runs through: the world with given cells, words, sentence,
  capture state, button and allocation counter; the cells 6, 7, 8 in a given state of the
  letters "r", "e", "d" (staged by the seeder, faded to black, shown, released by the commit,
  faded to black with a random letter, staged again); and the capture states.
\<close>

definition redWorld :: "cell list \<Rightarrow> placedWord list \<Rightarrow> string list \<Rightarrow> capture \<Rightarrow> bool \<Rightarrow> nat \<Rightarrow> world" where
  "redWorld cs ws sent cap dn oid =
     seedWorld\<lparr>cells := cs, words := ws, sentence := sent, capture := cap,
       mouse := \<lparr>mouse_x = 15, mouse_y = 25, down = dn\<rparr>, nextOid := oid\<rparr>"

definition redCells :: "(cell \<Rightarrow> char \<Rightarrow> cell) \<Rightarrow> cell list" where
  "redCells f =
     (cells seedWorld)[6 := f (cells seedWorld ! 6) CHR ''r'', 7 := f (cells seedWorld ! 7) CHR ''e'',
        8 := f (cells seedWorld ! 8) CHR ''d'']"

definition idle0 :: capture where
  "idle0 = \<lparr>active = False, startMs = 0, wordUnderSpot = None, progress01 = 0, key = None\<rparr>"

definition staged :: "cell \<Rightarrow> char \<Rightarrow> cell" where
  "staged c ch = c\<lparr>fadeDir := - 1, nextChar := Some ch, locked := True\<rparr>"

definition black :: "cell \<Rightarrow> char \<Rightarrow> cell" where
  "black c ch = c\<lparr>cell_char := ch, fadeT := 0, fadeDir := 1, locked := True\<rparr>"

definition shown :: "cell \<Rightarrow> char \<Rightarrow> cell" where
  "shown c ch = c\<lparr>cell_char := ch, nextAt := 200, locked := True\<rparr>"

definition released :: "cell \<Rightarrow> char \<Rightarrow> cell" where
  "released c ch = c\<lparr>cell_char := ch, nextAt := 200, fadeDir := - 1\<rparr>"

definition restaged :: "cell \<Rightarrow> char \<Rightarrow> cell" where
  "restaged c ch =
     c\<lparr>cell_char := CHR ''s'', nextAt := 200, fadeT := 0, fadeDir := - 1, nextChar := Some ch,
       locked := True\<rparr>"

definition idle1 :: capture where
  "idle1 = \<lparr>active = False, startMs = 0, wordUnderSpot = None, progress01 = 0, key = Some []\<rparr>"

definition redHold :: capture where
  "redHold = \<lparr>active = True, startMs = 150, wordUnderSpot = Some (rowCandidate 3 11 ''red'' 2 0),
     progress01 = 0, key = Some (candidateKey (Some (rowCandidate 3 11 ''red'' 2 0)))\<rparr>"

definition idle2 :: capture where
  "idle2 = \<lparr>active = False, startMs = 150, wordUnderSpot = None, progress01 = 0, key = Some []\<rparr>"

definition black2 :: "cell \<Rightarrow> char \<Rightarrow> cell" where
  "black2 c ch = c\<lparr>cell_char := CHR ''s'', nextAt := 200, fadeT := 0, fadeDir := 1\<rparr>"

text \<open>
  A 4 by 3 world over the dictionary \<^verbatim>\<open>["cat"]\<close> whose first row and first column both read
  "cat" (\<open>crossWorld\<close>), and one where only the first column does (\<open>colWorld\<close>), with the pointer
  at the middle of the second row; and preferences with a spotlight of radius 30, which
  covers the whole grid.
\<close>

definition widePrefs :: prefs where
  "widePrefs = demoPrefs\<lparr>spotlightRadiusPx := 30\<rparr>"

definition crossWorld :: world where
  "crossWorld =
    (mkWorld 4 3 ''cataxxtxxxxx'' [''cat''] (\<lambda>_. 0))
      \<lparr>mouse := \<lparr>mouse_x = 15, mouse_y = 15, down = False\<rparr>, nextOid := 2\<rparr>"

definition colWorld :: world where
  "colWorld =
    (mkWorld 4 3 ''cxxaxxtxxxxx'' [''cat''] (\<lambda>_. 0))
      \<lparr>mouse := \<lparr>mouse_x = 15, mouse_y = 15, down = False\<rparr>, nextOid := 2\<rparr>"

section \<open>Properties\<close>

subsection \<open>The trie\<close>

lemma spells_Nil: "spells n [] = node_t n"
  by (simp add: spells_def)

lemma spells_Cons:
  "spells n (ch # w) = (case node_c n ch of None \<Rightarrow> False | Some n' \<Rightarrow> spells n' w)"
  by (simp add: spells_def split: option.split)

lemma spells_emptyNode: "spells emptyNode w = False"
  by (cases w) (simp_all add: spells_Nil spells_Cons emptyNode_def)

lemma spells_insertWord: "spells (insertWord n w) s = (s = w \<or> spells n s)"
proof (induction n w arbitrary: s rule: insertWord.induct)
  case (1 t c)
  show ?case
    by (cases s) (auto simp: spells_Nil spells_Cons)
next
  case (2 t c ch w)
  show ?case
  proof (cases s)
    case Nil
    then show ?thesis by (simp add: spells_Nil)
  next
    case (Cons a s')
    then show ?thesis
      using "2.IH" [of s']
      by (auto simp: spells_Cons spells_emptyNode split: option.splits)
  qed
qed

lemma spells_foldl: "spells (foldl insertWord n ws) s = (s \<in> set ws \<or> spells n s)"
  by (induction ws arbitrary: n) (auto simp: spells_insertWord)

lemma spells_buildTrie: "spells (buildTrie ws) s = (s \<in> set ws)"
  by (simp add: buildTrie_def spells_foldl spells_emptyNode)

text \<open>
  C6. For every word list: the walk along a word of the list succeeds and ends at a node
  whose complete-word flag is set; the walk along a string that is not in the list stops at
  a missing child or ends at a node whose flag is not set.
\<close>

theorem trie_correct:
  "(\<forall>w \<in> set ws. \<exists>n. walk (buildTrie ws) w = Some n \<and> node_t n) \<and>
   (\<forall>s. s \<notin> set ws \<longrightarrow>
      walk (buildTrie ws) s = None \<or> (\<exists>n. walk (buildTrie ws) s = Some n \<and> \<not> node_t n))"
proof (intro conjI ballI allI impI)
  fix w assume "w \<in> set ws"
  then have "spells (buildTrie ws) w" by (simp add: spells_buildTrie)
  then show "\<exists>n. walk (buildTrie ws) w = Some n \<and> node_t n"
    by (auto simp: spells_def split: option.splits)
next
  fix s assume "s \<notin> set ws"
  then have "\<not> spells (buildTrie ws) s" by (simp add: spells_buildTrie)
  then show "walk (buildTrie ws) s = None \<or> (\<exists>n. walk (buildTrie ws) s = Some n \<and> \<not> node_t n)"
    by (auto simp: spells_def split: option.splits)
qed

theorem trie_correct_witness:
  "(\<exists>n. walk (buildTrie [''cat'', ''car'']) ''cat'' = Some n \<and> node_t n) \<and>
   (\<exists>n. walk (buildTrie [''cat'', ''car'']) ''ca'' = Some n \<and> \<not> node_t n) \<and>
   walk (buildTrie [''cat'', ''car'']) ''dog'' = None"
proof -
  have a: "''cat'' \<in> set [''cat'', ''car'']" by simp
  have b: "''ca'' \<notin> set [''cat'', ''car'']" by simp
  have c: "walk (buildTrie [''cat'', ''car'']) ''dog'' = None"
    by (simp add: buildTrie_def emptyNode_def)
  have d: "walk (buildTrie [''cat'', ''car'']) ''ca'' \<noteq> None"
    by (simp add: buildTrie_def emptyNode_def)
  note tc = trie_correct [of "[''cat'', ''car'']"]
  from tc a have 1: "\<exists>n. walk (buildTrie [''cat'', ''car'']) ''cat'' = Some n \<and> node_t n"
    by (elim conjE) (erule bspec)
  from tc b have "walk (buildTrie [''cat'', ''car'']) ''ca'' = None \<or>
      (\<exists>n. walk (buildTrie [''cat'', ''car'']) ''ca'' = Some n \<and> \<not> node_t n)"
    by (elim conjE) (erule allE, erule mp)
  with d have 2: "\<exists>n. walk (buildTrie [''cat'', ''car'']) ''ca'' = Some n \<and> \<not> node_t n"
    by (elim disjE) (erule notE, assumption)
  from 1 2 c show ?thesis by (intro conjI)
qed

subsection \<open>Choosing and seeding a word\<close>

lemmas seedAttempts_numeral = seedAttempts.simps(2) [of "pred_numeral k" for k, folded numeral_eq_Suc]

lemma placeWord_words:
  "\<exists>pw. words (placeWord w word r c d) = words w @ [pw] \<and> pw_word pw = word"
  by (simp add: placeWord_def Let_def)

lemma seedAttempts_words:
  "seedAttempts n word w = (True, w') \<Longrightarrow> \<exists>pw. words w' = words w @ [pw] \<and> pw_word pw = word"
proof (induction n arbitrary: w)
  case 0
  then show ?case by simp
next
  case (Suc n)
  have rec: "\<exists>pw. words w' = words w @ [pw] \<and> pw_word pw = word"
    if "seedAttempts n word (w\<lparr>rng := g\<rparr>) = (True, w')" for g
    using Suc.IH [OF that] by simp
  have plc: "\<exists>pw. words (placeWord (w\<lparr>rng := g\<rparr>) word r c d) = words w @ [pw] \<and> pw_word pw = word"
    for g r c d
    using placeWord_words [of "w\<lparr>rng := g\<rparr>" word r c d] by simp
  from Suc.prems show ?case
    by (auto simp: rng_next_def Let_def split: if_splits intro: rec plc)
qed

lemma pickLongest_mem:
  assumes "pickLongest xs g = (Some c, g')"
  shows "c \<in> set xs"
proof -
  let ?sorted = "sort_key (\<lambda>c. - int (length (cand_word c))) xs"
  let ?longest = "filter (\<lambda>c. length (cand_word c) = length (cand_word (hd ?sorted))) ?sorted"
  let ?i = "\<lfloor>fst (rng_next g) * real (length ?longest)\<rfloor>"
  from assms have "0 \<le> ?i \<and> ?i < int (length ?longest) \<and> c = ?longest ! nat ?i"
    by (simp add: pickLongest_def Let_def split: prod.splits if_splits)
  then have "nat ?i < length ?longest" and "c = ?longest ! nat ?i" by linarith+
  then have "c \<in> set ?longest" by (simp only: nth_mem)
  then show ?thesis by simp
qed

lemma wordUnderSpotlight_lengthOk:
  assumes "wordUnderSpotlight p w = Some (Some cand, w')"
  shows "lengthOk (minWordLength p) (maxWordLength p) (cand_word cand)"
proof -
  from assms obtain cands g where
    "pickLongest (filter (\<lambda>c. lengthOk (minWordLength p) (maxWordLength p) (cand_word c)) cands) 
       (rng (w\<lparr>nextOid := nextOid w + length cands\<rparr>)) = (Some cand, g)"
    by (auto simp: wordUnderSpotlight_def Let_def split: option.splits if_splits prod.splits)
  from pickLongest_mem [OF this] show ?thesis by simp
qed

lemma floor_unit_index:
  assumes "0 \<le> u" "u < 1" "0 < n"
  shows "0 \<le> \<lfloor>u * real n\<rfloor> \<and> \<lfloor>u * real n\<rfloor> < int n"
proof
  from assms show "0 \<le> \<lfloor>u * real n\<rfloor>" by simp
  from assms have "u * real n < real n" by simp
  then show "\<lfloor>u * real n\<rfloor> < int n" by (simp add: floor_less_iff)
qed

lemma chooseWord_some:
  assumes "dict \<noteq> []" "0 \<le> g 0" "g 0 < 1"
  shows "chooseWord dict g minLen maxLen =
      (Some (wordSource dict minLen maxLen ! nat \<lfloor>g 0 * real (length (wordSource dict minLen maxLen))\<rfloor>),
       \<lambda>n. g (Suc n)) \<and>
      nat \<lfloor>g 0 * real (length (wordSource dict minLen maxLen))\<rfloor> < length (wordSource dict minLen maxLen)"
proof -
  let ?src = "wordSource dict minLen maxLen"
  from assms have pos: "0 < length ?src" by (auto simp: wordSource_def Let_def)
  from floor_unit_index [OF assms(2,3) pos]
  have idx: "0 \<le> \<lfloor>g 0 * real (length ?src)\<rfloor>" "\<lfloor>g 0 * real (length ?src)\<rfloor> < int (length ?src)"
    by simp_all
  then have lt: "nat \<lfloor>g 0 * real (length ?src)\<rfloor> < length ?src" by linarith
  have "chooseWord dict g minLen maxLen = (Some (?src ! nat \<lfloor>g 0 * real (length ?src)\<rfloor>), \<lambda>n. g (Suc n))"
    using idx unfolding chooseWord_def rng_next_def Let_def by (auto split: if_splits)
  with lt show ?thesis by simp
qed

text \<open>
  C10. For a non-empty dictionary and a draw in \<open>[0, 1)\<close>, \<^verbatim>\<open>chooseWord\<close> returns a word of
  the dictionary, never \<^verbatim>\<open>undefined\<close>. When some word has its length within the bounds the
  result is within the bounds. When no word has, the result is drawn from the whole
  dictionary and violates the bounds; \<^verbatim>\<open>seedOneWord\<close>, when it places a word, places that
  word; and \<^verbatim>\<open>wordUnderSpotlight\<close> never returns a candidate of that word, since it
  filters by the same bounds.
\<close>

theorem chooseWord_fallback:
  assumes ne: "dict \<noteq> []" and lo: "0 \<le> rng w 0" and hi: "rng w 0 < 1"
  shows "\<exists>word. fst (chooseWord dict (rng w) (minWordLength p) (maxWordLength p)) = Some word \<and>
      word \<in> set dict \<and>
      ((\<exists>v \<in> set dict. lengthOk (minWordLength p) (maxWordLength p) v) \<longrightarrow>
         lengthOk (minWordLength p) (maxWordLength p) word) \<and>
      ((\<forall>v \<in> set dict. \<not> lengthOk (minWordLength p) (maxWordLength p) v) \<longrightarrow>
         word = dict ! nat \<lfloor>rng w 0 * real (length dict)\<rfloor> \<and>
         \<not> lengthOk (minWordLength p) (maxWordLength p) word \<and>
         (\<forall>w'. seedOneWord p dict w = Some (True, w') \<longrightarrow>
            (\<exists>pw. words w' = words w @ [pw] \<and> pw_word pw = word)) \<and>
         (\<forall>w2 cand w3. wordUnderSpotlight p w2 = Some (Some cand, w3) \<longrightarrow> cand_word cand \<noteq> word))"
proof -
  let ?lo = "minWordLength p" and ?hi = "maxWordLength p"
  let ?src = "wordSource dict ?lo ?hi"
  let ?word = "?src ! nat \<lfloor>rng w 0 * real (length ?src)\<rfloor>"
  from chooseWord_some [of dict "rng w" ?lo ?hi, OF ne lo hi]
  have cw: "chooseWord dict (rng w) ?lo ?hi = (Some ?word, \<lambda>n. rng w (Suc n))"
    and lt: "nat \<lfloor>rng w 0 * real (length ?src)\<rfloor> < length ?src" by simp_all
  from lt have mem: "?word \<in> set ?src" by (simp only: nth_mem)
  have in_dict: "?word \<in> set dict"
    using mem by (auto simp: wordSource_def Let_def split: if_splits)
  have inb: "lengthOk ?lo ?hi ?word" if "\<exists>v \<in> set dict. lengthOk ?lo ?hi v"
  proof -
    from that have "filter (lengthOk ?lo ?hi) dict \<noteq> []" by (simp add: filter_empty_conv)
    then have "?src = filter (lengthOk ?lo ?hi) dict" by (simp add: wordSource_def Let_def)
    with mem show ?thesis by simp
  qed
  have fb: "?word = dict ! nat \<lfloor>rng w 0 * real (length dict)\<rfloor> \<and>
         \<not> lengthOk ?lo ?hi ?word \<and>
         (\<forall>w'. seedOneWord p dict w = Some (True, w') \<longrightarrow>
            (\<exists>pw. words w' = words w @ [pw] \<and> pw_word pw = ?word)) \<and>
         (\<forall>w2 cand w3. wordUnderSpotlight p w2 = Some (Some cand, w3) \<longrightarrow> cand_word cand \<noteq> ?word)"
    if none: "\<forall>v \<in> set dict. \<not> lengthOk ?lo ?hi v"
  proof (intro conjI allI impI)
    from none have "filter (lengthOk ?lo ?hi) dict = []" by (simp add: filter_empty_conv)
    then have src: "?src = dict" by (simp add: wordSource_def Let_def)
    then show "?word = dict ! nat \<lfloor>rng w 0 * real (length dict)\<rfloor>" by simp
    from none in_dict show out: "\<not> lengthOk ?lo ?hi ?word" by blast
    show "\<exists>pw. words w' = words w @ [pw] \<and> pw_word pw = ?word"
      if "seedOneWord p dict w = Some (True, w')" for w'
    proof -
      from that cw have "seedAttempts 40 ?word (w\<lparr>rng := \<lambda>n. rng w (Suc n)\<rparr>) = (True, w')"
        by (simp add: seedOneWord_def)
      from seedAttempts_words [OF this] show ?thesis by simp
    qed
    show "cand_word cand \<noteq> ?word"
      if "wordUnderSpotlight p w2 = Some (Some cand, w3)" for w2 cand w3
      using wordUnderSpotlight_lengthOk [OF that] out by auto
  qed
  from cw in_dict inb fb show ?thesis
    by (intro exI [of _ ?word]) (simp only: fst_conv, blast)
qed

theorem chooseWord_fallback_witness:
  "fst (chooseWord DICTIONARY (\<lambda>_. 0) 8 10) = Some ''mind'' \<and> ''mind'' \<in> set DICTIONARY \<and>
   \<not> lengthOk 8 10 ''mind'' \<and>
   (\<exists>w'. seedOneWord (demoPrefs\<lparr>minWordLength := 8, maxWordLength := 10\<rparr>) DICTIONARY
            (mkWorld 4 4 (replicate 16 CHR ''x'') DICTIONARY (\<lambda>_. 0)) = Some (True, w') \<and>
         map pw_word (words w') = [''mind''])"
proof -
  let ?p = "demoPrefs\<lparr>minWordLength := 8, maxWordLength := 10\<rparr>"
  let ?w = "mkWorld 4 4 (replicate 16 CHR ''x'') DICTIONARY (\<lambda>_. 0)"
  have bounds: "minWordLength ?p = 8" "maxWordLength ?p = 10" by (simp_all add: demoPrefs_def)
  have ne: "DICTIONARY \<noteq> []" by (simp add: DICTIONARY_def)
  have g: "rng ?w = (\<lambda>_. 0)" by (simp add: mkWorld_def)
  have lo: "0 \<le> rng ?w 0" and hi: "rng ?w 0 < 1" by (simp_all add: g)
  have none: "\<forall>v \<in> set DICTIONARY. \<not> lengthOk 8 10 v"
    by (simp add: DICTIONARY_def lengthOk_def)
  have cw: "chooseWord DICTIONARY (\<lambda>_. 0) 8 10 = (Some ''mind'', \<lambda>_. 0)"
    by (simp add: chooseWord_def wordSource_def DICTIONARY_def lengthOk_def rng_next_def)
  have seeded: "\<exists>w'. seedOneWord ?p DICTIONARY ?w = Some (True, w')"
    apply (simp add: seedOneWord_def cw demoPrefs_def g)
    apply (subst seedAttempts_numeral)
    apply (simp add: rng_next_def mkWorld_def gridCells_def mkCell_def placementFree_def
        getCellIndex_def cellAt_def Let_def del: seedAttempts.simps)
    done
  then obtain w' where w': "seedOneWord ?p DICTIONARY ?w = Some (True, w')" ..
  from chooseWord_fallback [OF ne lo hi, of ?p] obtain word where
    1: "fst (chooseWord DICTIONARY (rng ?w) 8 10) = Some word" and
    2: "word \<in> set DICTIONARY" and
    3: "(\<forall>v \<in> set DICTIONARY. \<not> lengthOk 8 10 v) \<longrightarrow>
         word = DICTIONARY ! nat \<lfloor>rng ?w 0 * real (length DICTIONARY)\<rfloor> \<and>
         \<not> lengthOk 8 10 word \<and>
         (\<forall>w'. seedOneWord ?p DICTIONARY ?w = Some (True, w') \<longrightarrow>
            (\<exists>pw. words w' = words ?w @ [pw] \<and> pw_word pw = word)) \<and>
         (\<forall>w2 cand w3. wordUnderSpotlight ?p w2 = Some (Some cand, w3) \<longrightarrow> cand_word cand \<noteq> word)"
    unfolding bounds by (elim exE conjE)
  from 1 have word: "word = ''mind''" by (simp add: g cw)
  from 3 none have all: "word = DICTIONARY ! nat \<lfloor>rng ?w 0 * real (length DICTIONARY)\<rfloor> \<and>
         \<not> lengthOk 8 10 word \<and>
         (\<forall>w'. seedOneWord ?p DICTIONARY ?w = Some (True, w') \<longrightarrow>
            (\<exists>pw. words w' = words ?w @ [pw] \<and> pw_word pw = word)) \<and>
         (\<forall>w2 cand w3. wordUnderSpotlight ?p w2 = Some (Some cand, w3) \<longrightarrow> cand_word cand \<noteq> word)"
    by (rule mp)
  from all have 4: "\<not> lengthOk 8 10 word" by (elim conjE)
  from all have 5: "\<forall>w'. seedOneWord ?p DICTIONARY ?w = Some (True, w') \<longrightarrow>
            (\<exists>pw. words w' = words ?w @ [pw] \<and> pw_word pw = word)"
    by (elim conjE)
  from 5 w' obtain pw where "words w' = words ?w @ [pw]" "pw_word pw = word"
    by (elim allE impE exE conjE)
  then have 6: "map pw_word (words w') = [''mind'']" by (simp add: word mkWorld_def)
  from 1 2 4 6 w' show ?thesis
    unfolding word g by - (intro conjI exI [of _ w']; assumption)
qed

subsection \<open>The sentence\<close>

lemma releaseCells_Some:
  "\<forall>i \<in> set ixs. 0 \<le> i \<and> i < int (length cs) \<Longrightarrow>
   \<exists>cs'. releaseCells cs ixs = Some cs' \<and> length cs' = length cs"
proof (induction ixs arbitrary: cs)
  case Nil
  then show ?case by simp
next
  case (Cons i ixs)
  let ?cs = "cs[nat i := (cs ! nat i)\<lparr>locked := False, fadeDir := - 1, nextChar := None\<rparr>]"
  from Cons.prems have "\<forall>i \<in> set ixs. 0 \<le> i \<and> i < int (length ?cs)" by simp
  from Cons.IH [OF this] Cons.prems show ?case by (simp add: cellAt_def)
qed

lemma finalizeCapture_Some:
  assumes "validParts w c"
  shows "\<exists>w'. finalizeCapture p w c = Some w' \<and> length (cells w') = length (cells w) \<and>
     sentence w' = pushWord (maxSentenceWords p) (sentence w) (cand_word c) \<and>
     capture w' = capture w \<and> mouse w' = mouse w \<and> grid w' = grid w"
proof -
  from assms have "\<forall>i \<in> set (map seg_idx (cand_cells c)). 0 \<le> i \<and> i < int (length (cells w))"
    by (simp add: validParts_def)
  from releaseCells_Some [OF this] show ?thesis
    by (auto simp: finalizeCapture_def Let_def)
qed

lemma pushWord_drop:
  assumes "length s \<le> cap"
  shows "pushWord cap s x = drop (Suc (length s) - cap) (s @ [x])"
proof (cases "length s = cap")
  case True
  then have "Suc (length s) - cap = Suc 0" by simp
  moreover have "pushWord cap s x = tl (s @ [x])" using True by (simp add: pushWord_def Let_def)
  moreover have "drop (Suc 0) (s @ [x]) = tl (s @ [x])" by (simp only: drop_Suc drop_0)
  ultimately show ?thesis by simp
next
  case False
  with assms have "length s < cap" by simp
  then show ?thesis by (simp add: pushWord_def Let_def)
qed

lemma pushWord_length: "length s \<le> cap \<Longrightarrow> length (pushWord cap s x) \<le> cap"
  by (auto simp: pushWord_def Let_def)

lemma foldl_pushWord:
  "length s \<le> cap \<Longrightarrow>
   foldl (pushWord cap) s xs = drop (length s + length xs - cap) (s @ xs)"
proof (induction xs arbitrary: s)
  case Nil
  then show ?case by simp
next
  case (Cons x xs)
  define k where "k = Suc (length s) - cap"
  let ?s = "pushWord cap s x"
  have len: "length ?s \<le> cap" using Cons.prems by (rule pushWord_length)
  have s: "?s = drop k (s @ [x])"
    unfolding k_def using Cons.prems by (rule pushWord_drop)
  have k: "k \<le> Suc (length s)" by (simp add: k_def)
  have "drop k ((s @ [x]) @ xs) = drop k (s @ [x]) @ drop (k - length (s @ [x])) xs"
    by (rule drop_append)
  with k have app: "?s @ xs = drop k (s @ x # xs)" by (simp add: s)
  have lens: "length ?s = Suc (length s) - k" by (simp add: s)
  have "foldl (pushWord cap) s (x # xs) = foldl (pushWord cap) ?s xs" by simp
  also have "\<dots> = drop (length ?s + length xs - cap) (?s @ xs)" by (rule Cons.IH [OF len])
  also have "\<dots> = drop (length ?s + length xs - cap + k) (s @ x # xs)"
    by (simp only: app drop_drop)
  also have "length ?s + length xs - cap + k = length s + length (x # xs) - cap"
    using Cons.prems unfolding lens k_def by simp
  finally show ?case .
qed

lemma captureAll_sentence:
  assumes "\<forall>c \<in> set cs. validParts w c"
  shows "\<exists>w'. captureAll p w cs = Some w' \<and>
     sentence w' = foldl (pushWord (maxSentenceWords p)) (sentence w) (map cand_word cs)"
  using assms
proof (induction cs arbitrary: w)
  case Nil
  then show ?case by simp
next
  case (Cons c cs)
  from Cons.prems have "validParts w c" by simp
  from finalizeCapture_Some [OF this, of p] obtain w1 where
    w1: "finalizeCapture p w c = Some w1" "length (cells w1) = length (cells w)"
      "sentence w1 = pushWord (maxSentenceWords p) (sentence w) (cand_word c)"
    by (elim exE conjE)
  from Cons.prems w1(2) have "\<forall>c \<in> set cs. validParts w1 c" by (simp add: validParts_def)
  from Cons.IH [OF this] w1 show ?case by simp
qed

text \<open>
  C7. A sequence of commits that starts with a sentence no longer than the cap and appends
  more words than the cap returns, and leaves a sentence of exactly cap words: the most
  recent captured words, in capture order. Each commit appends one word and removes at most
  the single oldest entry.
\<close>

theorem sentence_capped:
  assumes valid: "\<forall>c \<in> set cs. validParts w c"
    and init: "length (sentence w) \<le> maxSentenceWords p"
    and more: "length cs > maxSentenceWords p"
  shows "(\<exists>w'. captureAll p w cs = Some w' \<and>
      length (sentence w') = maxSentenceWords p \<and>
      sentence w' = drop (length cs - maxSentenceWords p) (map cand_word cs)) \<and>
    (\<forall>w1 c w2. finalizeCapture p w1 c = Some w2 \<longrightarrow>
       sentence w2 = sentence w1 @ [cand_word c] \<or> sentence w2 = tl (sentence w1 @ [cand_word c]))"
proof (intro conjI allI impI)
  let ?cap = "maxSentenceWords p"
  from captureAll_sentence [OF valid, of p] obtain w' where
    w': "captureAll p w cs = Some w'"
      "sentence w' = foldl (pushWord ?cap) (sentence w) (map cand_word cs)"
    by (elim exE conjE)
  have "sentence w' = drop (length (sentence w) + length cs - ?cap) (sentence w @ map cand_word cs)"
    using foldl_pushWord [OF init, of "map cand_word cs"] w'(2) by simp
  also have "\<dots> = drop (length cs - ?cap) (map cand_word cs)"
    using more init by simp
  finally have eq: "sentence w' = drop (length cs - ?cap) (map cand_word cs)" .
  then have "length (sentence w') = ?cap" using more by simp
  with w'(1) eq show "\<exists>w'. captureAll p w cs = Some w' \<and> length (sentence w') = ?cap \<and>
      sentence w' = drop (length cs - ?cap) (map cand_word cs)"
    by (intro exI [of _ w'] conjI)
next
  fix w1 c w2
  assume "finalizeCapture p w1 c = Some w2"
  then have "sentence w2 = pushWord (maxSentenceWords p) (sentence w1) (cand_word c)"
    by (auto simp: finalizeCapture_def Let_def split: option.splits)
  then show "sentence w2 = sentence w1 @ [cand_word c] \<or> sentence w2 = tl (sentence w1 @ [cand_word c])"
    by (simp add: pushWord_def Let_def)
qed

lemma mkWorld_cells_length: "length (cells (mkWorld nr nc ls dict g)) = nr * nc"
  by (simp add: mkWorld_def gridCells_def)

theorem sentence_capped_witness:
  "\<exists>w'. captureAll demoPrefs (mkWorld 4 3 ''redxxxxxxxxx'' [''red''] (\<lambda>_. 0))
      [rowCandidate 3 0 ''red'' 0 0, rowCandidate 3 1 ''dog'' 1 0, rowCandidate 3 2 ''cat'' 2 0]
      = Some w' \<and> length (sentence w') = 2 \<and> sentence w' = [''dog'', ''cat'']"
proof -
  let ?w = "mkWorld 4 3 ''redxxxxxxxxx'' [''red''] (\<lambda>_. 0)"
  let ?cs = "[rowCandidate 3 0 ''red'' 0 0, rowCandidate 3 1 ''dog'' 1 0, rowCandidate 3 2 ''cat'' 2 0]"
  have valid: "\<forall>c \<in> set ?cs. validParts ?w c"
    by (simp add: validParts_def rowCandidate_def mkWorld_cells_length)
  have init: "length (sentence ?w) \<le> maxSentenceWords demoPrefs"
    by (simp add: mkWorld_def)
  have more: "length ?cs > maxSentenceWords demoPrefs"
    by (simp add: demoPrefs_def)
  from sentence_capped [OF valid init more] obtain w' where
    cap: "captureAll demoPrefs ?w ?cs = Some w'" and
    len: "length (sentence w') = maxSentenceWords demoPrefs" and
    sen: "sentence w' = drop (length ?cs - maxSentenceWords demoPrefs) (map cand_word ?cs)"
    by (elim exE conjE)
  from len have len2: "length (sentence w') = 2" by (simp add: demoPrefs_def)
  from sen have sen2: "sentence w' = [''dog'', ''cat'']"
    by (simp add: demoPrefs_def rowCandidate_def)
  from cap len2 sen2 show ?thesis by - (intro exI [of _ w'] conjI; assumption)
qed

subsection \<open>The fade cycle and the lock\<close>

lemma rng_ok_next: "rng_ok g \<Longrightarrow> rng_ok (snd (rng_next g))"
  by (simp add: rng_ok_def rng_next_def)

lemma rng_ok_randBetween: "rng_ok g \<Longrightarrow> rng_ok (snd (randBetween g a b))"
  by (simp add: rng_ok_def rng_next_def randBetween_def)

lemma rng_ok_randomGridChar: "rng_ok g \<Longrightarrow> rng_ok (snd (randomGridChar g))"
  by (simp add: rng_ok_def rng_next_def randomGridChar_def)

lemma randBetween_pos:
  assumes "rng_ok g" "0 < a" "0 < b"
  shows "0 < fst (randBetween g a b)"
proof -
  from assms(1) have u: "0 \<le> g 0" "g 0 < 1" by (simp_all add: rng_ok_def)
  have "fst (randBetween g a b) = a * (1 - g 0) + b * g 0"
    by (simp add: randBetween_def rng_next_def algebra_simps)
  moreover from u assms(2) have "0 < a * (1 - g 0)" by simp
  moreover from u assms(3) have "0 \<le> b * g 0" by simp
  ultimately show ?thesis by linarith
qed

lemma rng_ok_updateCell: "rng_ok g \<Longrightarrow> rng_ok (snd (updateCell p now dt c g))"
  unfolding updateCell_def Let_def
  by (auto simp: rng_ok_def rng_next_def randBetween_def randomGridChar_def split: prod.splits option.splits if_splits)

lemma updateCells_Cons:
  "updateCells p now dt (c # cs) g =
    (fst (updateCell p now dt c g) # fst (updateCells p now dt cs (snd (updateCell p now dt c g))),
     snd (updateCells p now dt cs (snd (updateCell p now dt c g))))"
  by (simp add: case_prod_beta)

lemma updateCells_nth:
  "i < length cs \<Longrightarrow>
   \<exists>g'. (rng_ok g \<longrightarrow> rng_ok g') \<and>
     fst (updateCells p now dt cs g) ! i = fst (updateCell p now dt (cs ! i) g')"
proof (induction cs arbitrary: g i)
  case Nil
  then show ?case by simp
next
  case (Cons c cs)
  show ?case
  proof (cases i)
    case 0
    then show ?thesis
      by (auto simp: updateCells_Cons simp del: updateCells.simps)
  next
    case (Suc j)
    with Cons.prems have "j < length cs" by simp
    from Cons.IH [OF this, of "snd (updateCell p now dt c g)"] obtain g' where
      g': "rng_ok (snd (updateCell p now dt c g)) \<longrightarrow> rng_ok g'"
        "fst (updateCells p now dt cs (snd (updateCell p now dt c g))) ! j =
         fst (updateCell p now dt (cs ! j) g')"
      by (elim exE conjE)
    from g'(1) have "rng_ok g \<longrightarrow> rng_ok g'" by (simp add: rng_ok_updateCell)
    with g'(2) Suc show ?thesis
      by (auto simp: updateCells_Cons simp del: updateCells.simps)
  qed
qed

lemma updateCells_length: "length (fst (updateCells p now dt cs g)) = length cs"
  by (induction cs arbitrary: g) (simp_all add: updateCells_Cons del: updateCells.simps(2))

lemma updateLetters_cells: "cells (updateLetters p now dt w) = fst (updateCells p now dt (cells w) (rng w))"
  by (simp add: updateLetters_def split: prod.splits)

lemma updateCell_fadeT:
  "fadeT (fst (updateCell p now dt c g)) = (if fadeDir c \<noteq> 0 then fadeStep p dt c g else fadeT c)"
  by (simp add: updateCell_def fadeStep_def Let_def split: prod.splits option.splits)

lemma updateCell_fadeDir:
  "fadeDir c \<noteq> 0 \<Longrightarrow> fadeDir (fst (updateCell p now dt c g)) =
     (if fadeStep p dt c g = 0 \<and> fadeDir c < 0 then 1
      else if fadeStep p dt c g = 1 \<and> fadeDir c > 0 then 0 else fadeDir c)"
  by (simp add: updateCell_def fadeStep_def Let_def split: prod.splits option.splits)

lemma fadeStep_range: "0 \<le> fadeStep p dt c g \<and> fadeStep p dt c g \<le> 1"
  by (simp add: fadeStep_def clamp_def)

lemma fadeStep_mono:
  assumes ok: "rng_ok g" and a: "0 < fst (fadeDurationRangeSec p)" and b: "0 < snd (fadeDurationRangeSec p)"
    and dt: "0 \<le> dt" and lo: "0 \<le> fadeT c" and hi: "fadeT c \<le> 1"
  shows "(fadeDir c > 0 \<longrightarrow> fadeT c \<le> fadeStep p dt c g) \<and>
         (fadeDir c < 0 \<longrightarrow> fadeStep p dt c g \<le> fadeT c)"
proof -
  let ?dur = "fst (randBetween g (fst (fadeDurationRangeSec p)) (snd (fadeDurationRangeSec p)))"
  have pos: "0 < ?dur" using ok a b by (rule randBetween_pos)
  define delta where "delta = 1 / ?dur * dt"
  have d: "0 \<le> delta" using pos dt by (simp add: delta_def)
  have eq: "fadeStep p dt c g = clamp (fadeT c + real_of_int (fadeDir c) * delta) 0 1"
    by (simp add: fadeStep_def delta_def)
  have up: "fadeT c \<le> fadeStep p dt c g" if "fadeDir c > 0"
  proof -
    from that d have "0 \<le> real_of_int (fadeDir c) * delta" by simp
    with lo hi show ?thesis unfolding eq clamp_def by simp
  qed
  have down: "fadeStep p dt c g \<le> fadeT c" if "fadeDir c < 0"
  proof -
    from that d have "real_of_int (fadeDir c) * delta \<le> 0" by (simp add: mult_le_0_iff)
    with lo hi show ?thesis unfolding eq clamp_def by simp
  qed
  from up down show ?thesis by simp
qed

lemma updateLetters_nth:
  assumes "i < length (cells w)"
  shows "\<exists>g'. (rng_ok (rng w) \<longrightarrow> rng_ok g') \<and>
     cells (updateLetters p now dt w) ! i = fst (updateCell p now dt (cells w ! i) g')"
  using updateCells_nth [OF assms, of "rng w" p now dt] by (simp add: updateLetters_cells)

text \<open>
  C8. One per-frame update, for every cell with its fade fraction in \<open>[0, 1]\<close>, positive fade
  durations and a time step that is not negative: the fraction stays in \<open>[0, 1]\<close>; while
  fading in it does not decrease, and the cell becomes steady exactly when it reaches 1;
  while fading out it does not increase, and the direction turns to fading in exactly when
  it reaches 0.
\<close>

theorem fade_monotone:
  assumes ok: "rng_ok (rng w)"
    and a: "0 < fst (fadeDurationRangeSec p)" and b: "0 < snd (fadeDurationRangeSec p)"
    and dt: "0 \<le> dt" and i: "i < length (cells w)"
    and lo: "0 \<le> fadeT (cells w ! i)" and hi: "fadeT (cells w ! i) \<le> 1"
  shows "let c = cells w ! i; c' = cells (updateLetters p now dt w) ! i in
     0 \<le> fadeT c' \<and> fadeT c' \<le> 1 \<and>
     (fadeDir c > 0 \<longrightarrow>
        fadeT c \<le> fadeT c' \<and> fadeDir c' = (if fadeT c' = 1 then 0 else fadeDir c)) \<and>
     (fadeDir c < 0 \<longrightarrow>
        fadeT c' \<le> fadeT c \<and> fadeDir c' = (if fadeT c' = 0 then 1 else fadeDir c))"
proof -
  let ?c = "cells w ! i"
  from updateLetters_nth [OF i, of p now dt] ok obtain g where
    g: "rng_ok g" and eq: "cells (updateLetters p now dt w) ! i = fst (updateCell p now dt ?c g)"
    by (elim exE conjE) simp
  note rg = fadeStep_range [of p dt ?c g]
  note mono = fadeStep_mono [OF g a b dt lo hi]
  have T: "fadeT (fst (updateCell p now dt ?c g)) =
      (if fadeDir ?c \<noteq> 0 then fadeStep p dt ?c g else fadeT ?c)"
    by (rule updateCell_fadeT)
  from T rg lo hi have range: "0 \<le> fadeT (fst (updateCell p now dt ?c g)) \<and>
      fadeT (fst (updateCell p now dt ?c g)) \<le> 1"
    by simp
  have up: "fadeT ?c \<le> fadeT (fst (updateCell p now dt ?c g)) \<and>
      fadeDir (fst (updateCell p now dt ?c g)) =
        (if fadeT (fst (updateCell p now dt ?c g)) = 1 then 0 else fadeDir ?c)"
    if "fadeDir ?c > 0"
    using that mono T updateCell_fadeDir [of ?c p now dt g] by simp
  have down: "fadeT (fst (updateCell p now dt ?c g)) \<le> fadeT ?c \<and>
      fadeDir (fst (updateCell p now dt ?c g)) =
        (if fadeT (fst (updateCell p now dt ?c g)) = 0 then 1 else fadeDir ?c)"
    if "fadeDir ?c < 0"
    using that mono T updateCell_fadeDir [of ?c p now dt g] by simp
  from range up down show ?thesis
    unfolding Let_def eq by (intro conjI impI) simp_all
qed



lemma fadingWorld_cells:
  "length (cells fadingWorld) = 12"
  "cells fadingWorld ! 0 = (mkCell 5 5 CHR ''r'')\<lparr>fadeDir := - 1, fadeT := 1 / 2, nextChar := Some CHR ''c'',
                                         locked := True\<rparr>"
  "cells fadingWorld ! Suc 0 = (mkCell 15 5 CHR ''e'')\<lparr>locked := True, nextAt := 0\<rparr>"
  "rng fadingWorld = (\<lambda>_. 1 / 2)"
  by (simp_all add: fadingWorld_def gridCells_def mkWorld_def)

theorem fade_monotone_witness:
  "let c = cells fadingWorld ! 0; c' = cells (updateLetters demoPrefs 0 (1 / 100) fadingWorld) ! 0 in
     fadeDir c < 0 \<and> 0 \<le> fadeT c' \<and> fadeT c' \<le> 1 \<and> fadeT c' \<le> fadeT c \<and>
     fadeDir c' = (if fadeT c' = 0 then 1 else fadeDir c)"
proof -
  have ok: "rng_ok (rng fadingWorld)" by (simp add: fadingWorld_cells rng_ok_def)
  have a: "0 < fst (fadeDurationRangeSec demoPrefs)" and b: "0 < snd (fadeDurationRangeSec demoPrefs)"
    by (simp_all add: demoPrefs_def)
  have dt: "(0::real) \<le> 1 / 100" by simp
  have i: "0 < length (cells fadingWorld)" by (simp add: fadingWorld_cells)
  have lo: "0 \<le> fadeT (cells fadingWorld ! 0)" and hi: "fadeT (cells fadingWorld ! 0) \<le> 1"
    by (simp_all add: fadingWorld_cells mkCell_def)
  have neg: "fadeDir (cells fadingWorld ! 0) < 0" by (simp add: fadingWorld_cells mkCell_def)
  from fade_monotone [OF ok a b dt i lo hi, of 0] neg show ?thesis
    by (auto simp: Let_def)
qed


subsection \<open>Double arithmetic\<close>

text \<open>
  The rounding fixes every double: an integer multiple of a power of two with a significand
  below \<open>2\<close> to the 53 and an exponent of at least \<open>-1074\<close>.
\<close>

lemma roundEven_of_int [simp]: "roundEven (of_int n) = n"
  by (simp add: roundEven_def)

lemma fl_zero [simp]: "fl 0 = 0"
  by (simp add: fl_def)

lemma fl_dyadic:
  assumes m: "\<bar>m\<bar> < 2 ^ 53" and e: "- 1074 \<le> e"
  shows "fl (of_int m * 2 powr of_int e) = of_int m * 2 powr of_int e"
proof (cases "m = 0")
  case True
  then show ?thesis by simp
next
  case False
  let ?x = "of_int m * 2 powr of_int e :: real"
  have x0: "?x \<noteq> 0" using False by simp
  have absx: "\<bar>?x\<bar> = of_int \<bar>m\<bar> * 2 powr of_int e" by (simp add: abs_mult)
  have m1: "1 \<le> \<bar>m\<bar>" using False by simp
  have "log 2 \<bar>?x\<bar> = log 2 (of_int \<bar>m\<bar>) + of_int e"
    unfolding absx using False by (simp add: log_mult)
  moreover have "log 2 (of_int \<bar>m\<bar>) < 53"
  proof -
    have "(of_int \<bar>m\<bar> :: real) < 2 ^ 53" using m by (metis of_int_less_iff of_int_numeral of_int_power)
    then have "log 2 (of_int \<bar>m\<bar>) < log 2 (2 ^ 53)" using m1 by (subst log_less_cancel_iff) simp_all
    also have "log 2 ((2::real) ^ 53) = real 53" by (rule log_pow_cancel) simp_all
    finally show ?thesis by simp
  qed
  ultimately have "log 2 \<bar>?x\<bar> < of_int (e + 53)" by simp
  then have "\<lfloor>log 2 \<bar>?x\<bar>\<rfloor> < e + 53" by (simp add: floor_less_iff)
  with e have k: "ulpExp ?x \<le> e" by (simp add: ulpExp_def)
  define k where "k = ulpExp ?x"
  define j where "j = nat (e - k)"
  from k have "real_of_int e = of_int k + real j" by (simp add: j_def k_def)
  then have "(2::real) powr of_int e = 2 powr (of_int k + real j)" by (rule arg_cong)
  then have p: "(2::real) powr of_int e = 2 ^ j * 2 powr of_int k"
    by (simp add: powr_add powr_realpow)
  have q: "?x / 2 powr of_int k = of_int (m * 2 ^ j)" unfolding p by simp
  have "fl ?x = of_int (roundEven (?x / 2 powr of_int k)) * 2 powr of_int k"
    using x0 unfolding fl_def k_def by simp
  also have "\<dots> = of_int (m * 2 ^ j) * 2 powr of_int k"
    unfolding q roundEven_of_int ..
  also have "\<dots> = ?x" unfolding p by simp
  finally show ?thesis .
qed

lemma fl_of_int: "\<bar>m\<bar> < 2 ^ 53 \<Longrightarrow> fl (of_int m) = of_int m"
  using fl_dyadic [of m 0] by simp

lemma fl_numeral [simp]: "numeral n < (2::int) ^ 53 \<Longrightarrow> fl (numeral n) = numeral n"
  using fl_of_int [of "numeral n"] by simp

lemma fl_one [simp]: "fl 1 = 1"
  using fl_of_int [of 1] by simp

lemma fl_half: "fl (1 / 2) = 1 / 2"
  using fl_dyadic [of 1 "- 1"] by (simp add: powr_minus)

text \<open>The rounding is monotone and odd.\<close>

lemma roundEven_cases: "roundEven y = \<lfloor>y\<rfloor> \<or> roundEven y = \<lfloor>y\<rfloor> + 1"
  by (simp add: roundEven_def Let_def)

lemma roundEven_floor_le: "\<lfloor>y\<rfloor> \<le> roundEven y"
  using roundEven_cases [of y] by auto

lemma roundEven_le_floor: "roundEven y \<le> \<lfloor>y\<rfloor> + 1"
  using roundEven_cases [of y] by auto

lemma roundEven_mono:
  assumes "x \<le> y"
  shows "roundEven x \<le> roundEven y"
proof (cases "\<lfloor>x\<rfloor> = \<lfloor>y\<rfloor>")
  case False
  with assms have "\<lfloor>x\<rfloor> < \<lfloor>y\<rfloor>" using floor_mono [OF assms] by simp
  with roundEven_le_floor [of x] roundEven_floor_le [of y] show ?thesis by linarith
next
  case True
  with assms have "x - of_int \<lfloor>x\<rfloor> \<le> y - of_int \<lfloor>y\<rfloor>" by simp
  with True show ?thesis by (simp add: roundEven_def Let_def)
qed

lemma roundEven_ge: "of_int n \<le> y \<Longrightarrow> n \<le> roundEven y"
  using roundEven_mono [of "of_int n" y] by simp

lemma roundEven_le: "y \<le> of_int n \<Longrightarrow> roundEven y \<le> n"
  using roundEven_mono [of y "of_int n"] by simp

lemma roundEven_minus: "roundEven (- y) = - roundEven y"
proof (cases "y = of_int \<lfloor>y\<rfloor>")
  case True
  then obtain n where "y = of_int n" ..
  then have "- y = of_int (- n)" by simp
  then show ?thesis unfolding \<open>y = of_int n\<close> by (simp only: roundEven_of_int)
next
  case False
  then have fm: "\<lfloor>- y\<rfloor> = - \<lfloor>y\<rfloor> - 1" by (simp add: floor_minus ceiling_altdef)
  show ?thesis unfolding roundEven_def Let_def fm by (auto simp: field_simps)
qed

lemma ulpExp_minus [simp]: "ulpExp (- x) = ulpExp x"
  by (simp add: ulpExp_def)

lemma fl_minus: "fl (- x) = - fl x"
  by (simp add: fl_def roundEven_minus)

lemma ulpExp_upper:
  assumes "0 < x"
  shows "x < 2 powr of_int (ulpExp x + 53)"
proof -
  have "\<lfloor>log 2 x\<rfloor> < ulpExp x + 53" using assms by (simp add: ulpExp_def)
  then have "log 2 x < of_int (ulpExp x + 53)" by (simp only: floor_less_iff)
  with assms show ?thesis by (simp add: log_less_iff)
qed

lemma ulpExp_lower:
  assumes "0 < x" "- 1074 < ulpExp x"
  shows "2 powr of_int (ulpExp x + 52) \<le> x"
proof -
  from assms have "ulpExp x + 52 = \<lfloor>log 2 x\<rfloor>" by (simp add: ulpExp_def max_def split: if_splits)
  then have "of_int (ulpExp x + 52) \<le> log 2 x" by (simp only: of_int_floor_le)
  with assms(1) show ?thesis by (simp add: le_log_iff)
qed

lemma ulpExp_mono:
  assumes "0 < x" "x \<le> y"
  shows "ulpExp x \<le> ulpExp y"
proof -
  from assms have "log 2 x \<le> log 2 y" by simp
  then have "\<lfloor>log 2 x\<rfloor> \<le> \<lfloor>log 2 y\<rfloor>" by (rule floor_mono)
  with assms show ?thesis by (simp add: ulpExp_def)
qed

lemma fl_pos_eq: "0 < x \<Longrightarrow> fl x = of_int (roundEven (x / 2 powr of_int (ulpExp x))) * 2 powr of_int (ulpExp x)"
  by (simp add: fl_def)

lemma powr_shift: "(2::real) powr of_int (k + 53) = 2 ^ 53 * 2 powr of_int k"
  "(2::real) powr of_int (k + 52) = 2 ^ 52 * 2 powr of_int k"
proof -
  have "(2::real) powr of_int (k + 53) = 2 powr (of_int k + real 53)" by simp
  also have "\<dots> = 2 powr of_int k * 2 powr real 53" by (rule powr_add)
  also have "(2::real) powr real 53 = 2 ^ 53" by (rule powr_realpow) simp
  finally show "(2::real) powr of_int (k + 53) = 2 ^ 53 * 2 powr of_int k" by simp
  have "(2::real) powr of_int (k + 52) = 2 powr (of_int k + real 52)" by simp
  also have "\<dots> = 2 powr of_int k * 2 powr real 52" by (rule powr_add)
  also have "(2::real) powr real 52 = 2 ^ 52" by (rule powr_realpow) simp
  finally show "(2::real) powr of_int (k + 52) = 2 ^ 52 * 2 powr of_int k" by simp
qed

lemma fl_upper:
  assumes "0 < x"
  shows "fl x \<le> 2 powr of_int (ulpExp x + 53)"
proof -
  let ?u = "(2::real) powr of_int (ulpExp x)"
  have u: "0 < ?u" by simp
  from ulpExp_upper [OF assms] have "x < 2 ^ 53 * ?u" by (simp only: powr_shift)
  with u have "x / ?u \<le> of_int (2 ^ 53)" by (simp add: divide_le_eq)
  then have "roundEven (x / ?u) \<le> 2 ^ 53" by (rule roundEven_le)
  then have "real_of_int (roundEven (x / ?u)) \<le> of_int (2 ^ 53)" by (simp only: of_int_le_iff)
  with u have "of_int (roundEven (x / ?u)) * ?u \<le> of_int (2 ^ 53) * ?u"
    by (intro mult_right_mono) simp_all
  then show ?thesis unfolding fl_pos_eq [OF assms] powr_shift by simp
qed

lemma fl_lower:
  assumes "0 < x" "- 1074 < ulpExp x"
  shows "2 powr of_int (ulpExp x + 52) \<le> fl x"
proof -
  let ?u = "(2::real) powr of_int (ulpExp x)"
  have u: "0 < ?u" by simp
  from ulpExp_lower [OF assms] have "2 ^ 52 * ?u \<le> x" by (simp only: powr_shift)
  with u have "of_int (2 ^ 52) \<le> x / ?u" by (simp add: le_divide_eq)
  then have "2 ^ 52 \<le> roundEven (x / ?u)" by (rule roundEven_ge)
  then have "of_int (2 ^ 52) \<le> real_of_int (roundEven (x / ?u))" by (simp only: of_int_le_iff)
  with u have "of_int (2 ^ 52) * ?u \<le> of_int (roundEven (x / ?u)) * ?u"
    by (intro mult_right_mono) simp_all
  then show ?thesis unfolding fl_pos_eq [OF assms(1)] powr_shift by simp
qed

lemma fl_nonneg: "0 \<le> x \<Longrightarrow> 0 \<le> fl x"
proof -
  assume "0 \<le> x"
  then have "0 \<le> x / 2 powr of_int (ulpExp x)" by simp
  then have "0 \<le> roundEven (x / 2 powr of_int (ulpExp x))"
    using roundEven_ge [of 0] by simp
  then show ?thesis by (simp add: fl_def)
qed

lemma fl_mono_pos:
  assumes x: "0 < x" and xy: "x \<le> y"
  shows "fl x \<le> fl y"
proof (cases "ulpExp x = ulpExp y")
  case True
  let ?u = "(2::real) powr of_int (ulpExp y)"
  from xy have "x / ?u \<le> y / ?u" by (simp add: divide_right_mono)
  then have "roundEven (x / ?u) \<le> roundEven (y / ?u)" by (rule roundEven_mono)
  then have "real_of_int (roundEven (x / ?u)) * ?u \<le> of_int (roundEven (y / ?u)) * ?u"
    by (intro mult_right_mono) simp_all
  with x xy True show ?thesis by (simp add: fl_def)
next
  case False
  with ulpExp_mono [OF x xy] have lt: "ulpExp x < ulpExp y" by simp
  have "- 1074 \<le> ulpExp x" by (simp add: ulpExp_def)
  with lt have low: "- 1074 < ulpExp y" by simp
  from x xy have y: "0 < y" by simp
  from lt have "ulpExp x + 53 \<le> ulpExp y + 52" by simp
  then have "(2::real) powr of_int (ulpExp x + 53) \<le> 2 powr of_int (ulpExp y + 52)"
    by (intro powr_mono) simp_all
  with fl_upper [OF x] fl_lower [OF y low] show ?thesis by linarith
qed

lemma fl_mono:
  assumes "x \<le> y"
  shows "fl x \<le> fl y"
proof -
  consider "0 < x" | "x \<le> 0" "0 \<le> y" | "y < 0" by linarith
  then show ?thesis
  proof cases
    case 1
    then show ?thesis using assms by (rule fl_mono_pos)
  next
    case 2
    from 2(1) have "0 \<le> fl (- x)" by (intro fl_nonneg) simp
    then have "fl x \<le> 0" by (simp add: fl_minus)
    with fl_nonneg [OF 2(2)] show ?thesis by simp
  next
    case 3
    with assms have "0 < - y" "- y \<le> - x" by simp_all
    then have "fl (- y) \<le> fl (- x)" by (rule fl_mono_pos)
    then show ?thesis by (simp add: fl_minus)
  qed
qed

lemma fl_below_one: "fl (1 - 1 / 2 ^ 53) = 1 - 1 / 2 ^ 53"
proof -
  have d: "fl (of_int (2 ^ 53 - 1) * 2 powr of_int (- 53)) = of_int (2 ^ 53 - 1) * 2 powr of_int (- 53)"
    by (rule fl_dyadic) simp_all
  have eq: "real_of_int (2 ^ 53 - 1) * 2 powr of_int (- 53) = 1 - 1 / 2 ^ 53"
    by (simp add: powr_minus powr_realpow field_simps)
  from d show ?thesis unfolding eq .
qed

lemma fl_lt_one:
  assumes "x \<le> 1 - 1 / 2 ^ 53"
  shows "fl x < 1"
proof -
  from fl_mono [OF assms] have "fl x \<le> 1 - 1 / 2 ^ 53" unfolding fl_below_one .
  moreover have "(1 - 1 / 2 ^ 53 :: real) < 1" by simp
  ultimately show ?thesis by (rule order.strict_trans1)
qed

lemma fl_ge_one: "1 \<le> x \<Longrightarrow> 1 \<le> fl x"
  using fl_mono [of 1 x] by simp

text \<open>
  The quotient of two doubles rounds to less than 1 exactly when the dividend is the smaller
  one: a double below another is below it by a unit in the last place at least.
\<close>

lemma fl_mantissa:
  assumes x: "0 < x" and ex: "fl x = x"
  shows "\<exists>n. x = of_int n * 2 powr of_int (ulpExp x) \<and> 0 < n \<and> n < 2 ^ 53"
proof -
  let ?u = "(2::real) powr of_int (ulpExp x)"
  define n where "n = roundEven (x / ?u)"
  have u: "0 < ?u" by simp
  from ex x have eq: "x = of_int n * ?u" by (simp add: fl_def n_def)
  from x have "0 < real_of_int n * ?u" by (subst eq [symmetric])
  with u have "0 < real_of_int n" by (simp only: zero_less_mult_pos2)
  then have pos: "0 < n" by simp
  from ulpExp_upper [OF x] have "x < 2 ^ 53 * ?u" by (simp only: powr_shift)
  then have "of_int n * ?u < 2 ^ 53 * ?u" using eq by simp
  with u have "real_of_int n < 2 ^ 53" by (simp only: mult_less_cancel_right_pos)
  then have "real_of_int n < of_int (2 ^ 53)" by simp
  then have "n < 2 ^ 53" by (simp only: of_int_less_iff)
  with eq pos show ?thesis by blast
qed

lemma fl_quotient_below:
  assumes a: "0 < a" and ab: "a < b" and ea: "fl a = a" and eb: "fl b = b"
  shows "a / b \<le> 1 - 1 / 2 ^ 53"
proof -
  from a ab have b: "0 < b" by simp
  from fl_mantissa [OF a ea] obtain na where
    na: "a = of_int na * 2 powr of_int (ulpExp a)" "0 < na" "na < 2 ^ 53" by blast
  from fl_mantissa [OF b eb] obtain nb where
    nb: "b = of_int nb * 2 powr of_int (ulpExp b)" "0 < nb" "nb < 2 ^ 53" by blast
  from a ab have le: "ulpExp a \<le> ulpExp b" by (intro ulpExp_mono) simp_all
  have key: "a * 2 ^ 53 \<le> b * (2 ^ 53 - 1)"
  proof (cases "ulpExp a = ulpExp b")
    case True
    let ?u = "(2::real) powr of_int (ulpExp b)"
    have u: "0 < ?u" by simp
    from ab na(1) nb(1) True have "of_int na * ?u < of_int nb * ?u" by simp
    with u have "real_of_int na < of_int nb" by (simp only: mult_less_cancel_right_pos)
    then have "na + 1 \<le> nb" by simp
    then have "na * 2 ^ 53 \<le> nb * (2 ^ 53 - 1)" using nb(3) by (simp add: algebra_simps)
    then have "real_of_int (na * 2 ^ 53) \<le> of_int (nb * (2 ^ 53 - 1))" by (simp only: of_int_le_iff)
    then have "real_of_int na * 2 ^ 53 \<le> of_int nb * (2 ^ 53 - 1)" by simp
    with u have "(real_of_int na * 2 ^ 53) * ?u \<le> (of_int nb * (2 ^ 53 - 1)) * ?u"
      by (intro mult_right_mono) simp_all
    then have "(of_int na * ?u) * 2 ^ 53 \<le> (of_int nb * ?u) * (2 ^ 53 - 1)"
      by (simp only: mult.assoc mult.commute mult.left_commute)
    with na(1) nb(1) True show ?thesis by simp
  next
    case False
    with le have lt: "ulpExp a < ulpExp b" by simp
    have "- 1074 \<le> ulpExp a" by (simp add: ulpExp_def)
    with lt have low: "- 1074 < ulpExp b" by simp
    let ?ua = "(2::real) powr of_int (ulpExp a)"
    have ua: "0 < ?ua" by simp
    from na(3) have "na \<le> 2 ^ 53 - 1" by simp
    then have "real_of_int na \<le> of_int (2 ^ 53 - 1)" by (simp only: of_int_le_iff)
    with ua have "of_int na * ?ua \<le> of_int (2 ^ 53 - 1) * ?ua" by (intro mult_right_mono) simp_all
    with na(1) have a_le: "a \<le> (2 ^ 53 - 1) * ?ua" by simp
    from lt have "ulpExp a + 53 \<le> ulpExp b + 52" by simp
    then have "(2::real) powr of_int (ulpExp a + 53) \<le> 2 powr of_int (ulpExp b + 52)"
      by (intro powr_mono) simp_all
    with ulpExp_lower [OF b low] have "2 powr of_int (ulpExp a + 53) \<le> b" by (rule order_trans [rotated])
    then have b_ge: "2 ^ 53 * ?ua \<le> b" by (simp only: powr_shift)
    from a_le have "a * 2 ^ 53 \<le> ((2 ^ 53 - 1) * ?ua) * 2 ^ 53" by (intro mult_right_mono) simp_all
    also have "\<dots> = (2 ^ 53 * ?ua) * (2 ^ 53 - 1)" by (simp only: mult.assoc mult.commute mult.left_commute)
    also from b_ge have "\<dots> \<le> b * (2 ^ 53 - 1)" by (intro mult_right_mono) simp_all
    finally show ?thesis .
  qed
  from key b have "a / b \<le> (2 ^ 53 - 1) / 2 ^ 53" by (simp add: field_simps)
  then show ?thesis by (simp add: field_simps)
qed

lemma fl_quotient_lt_one:
  assumes ea: "fl a = a" and eb: "fl b = b" and b: "0 < b"
  shows "fl (a / b) < 1 \<longleftrightarrow> a < b"
proof
  assume lt: "fl (a / b) < 1"
  show "a < b"
  proof (rule ccontr)
    assume "\<not> a < b"
    with b have "1 \<le> a / b" by (simp add: le_divide_eq)
    from fl_ge_one [OF this] lt show False by simp
  qed
next
  assume ab: "a < b"
  show "fl (a / b) < 1"
  proof (cases "0 < a")
    case True
    from fl_quotient_below [OF True ab ea eb] show ?thesis by (rule fl_lt_one)
  next
    case False
    with b have "a / b \<le> 0" by (simp add: divide_le_0_iff)
    from fl_mono [OF this] show ?thesis by simp
  qed
qed

text \<open>The rounding of a number inside a given binade.\<close>

lemma ulpExp_eq:
  assumes lo: "2 powr of_int e \<le> \<bar>x\<bar>" and hi: "\<bar>x\<bar> < 2 powr of_int (e + 1)" and e: "- 1022 \<le> e"
  shows "ulpExp x = e - 52"
proof -
  have pos: "0 < \<bar>x\<bar>" using lo by (rule less_le_trans [rotated]) simp
  from lo pos have "of_int e \<le> log 2 \<bar>x\<bar>" by (simp add: le_log_iff)
  moreover from hi pos have "log 2 \<bar>x\<bar> < of_int e + 1" by (simp add: log_less_iff)
  ultimately have "\<lfloor>log 2 \<bar>x\<bar>\<rfloor> = e" by (intro floor_unique) simp_all
  with e show ?thesis by (simp add: ulpExp_def)
qed

lemma ulpExp_eq2:
  assumes lo: "l \<le> \<bar>x\<bar>" and hi: "\<bar>x\<bar> < 2 * l" and l: "l = 2 powr of_int e" and e: "- 1022 \<le> e"
  shows "ulpExp x = e - 52"
proof -
  have "(2::real) powr (of_int e + 1) = 2 powr of_int e * 2 powr 1" by (rule powr_add)
  then have "(2::real) powr of_int (e + 1) = 2 * l" unfolding l by simp
  with lo hi show ?thesis unfolding l by (intro ulpExp_eq [OF _ _ e]) simp_all
qed

lemma fl_eval_small:
  assumes lo: "1 / 2 ^ m \<le> \<bar>x\<bar>" and hi: "\<bar>x\<bar> < 2 * (1 / 2 ^ m)" and m: "m \<le> 1022"
  shows "fl x = of_int (roundEven (x * 2 ^ (m + 52))) / 2 ^ (m + 52)"
proof -
  have p: "(2::real) powr of_int (- int k) = 1 / 2 ^ k" for k
    by (simp add: powr_minus powr_realpow inverse_eq_divide)
  from m have "ulpExp x = - int m - 52"
    by (intro ulpExp_eq2 [OF lo hi p [symmetric]]) simp
  then have u: "ulpExp x = - int (m + 52)" by simp
  have "0 < 1 / (2::real) ^ m" by simp
  from this lo have "0 < \<bar>x\<bar>" by (rule less_le_trans)
  then have "x \<noteq> 0" by simp
  then show ?thesis unfolding fl_def u p by simp
qed

lemma fl_eval_large:
  assumes lo: "2 ^ m \<le> \<bar>x\<bar>" and hi: "\<bar>x\<bar> < 2 * 2 ^ m" and m: "m \<le> 52"
  shows "fl x = of_int (roundEven (x * 2 ^ (52 - m))) / 2 ^ (52 - m)"
proof -
  have p: "(2::real) powr of_int (- int k) = 1 / 2 ^ k" for k
    by (simp add: powr_minus powr_realpow inverse_eq_divide)
  have q: "(2::real) ^ m = 2 powr of_int (int m)" by (simp add: powr_realpow)
  have "ulpExp x = int m - 52"
    by (intro ulpExp_eq2 [OF lo hi q]) simp
  with m have u: "ulpExp x = - int (52 - m)" by simp
  have "0 < (2::real) ^ m" by simp
  from this lo have "0 < \<bar>x\<bar>" by (rule less_le_trans)
  then have "x \<noteq> 0" by simp
  then show ?thesis unfolding fl_def u p by simp
qed

text \<open>
  A rounded number is a double, so that the quotient of a rounded difference by a rounded
  product rounds to less than 1 exactly when the difference is the smaller one.
\<close>

lemma fl_idem_pos:
  assumes x: "0 < x"
  shows "fl (fl x) = fl x"
proof -
  let ?k = "ulpExp x"
  let ?u = "(2::real) powr of_int ?k"
  define n where "n = roundEven (x / ?u)"
  have u: "0 < ?u" by simp
  have flx: "fl x = of_int n * ?u" using x by (simp add: fl_def n_def)
  have k: "- 1074 \<le> ?k" by (simp add: ulpExp_def)
  from x have "0 \<le> x / ?u" by simp
  then have n0: "0 \<le> n" unfolding n_def using roundEven_ge [of 0] by simp
  from ulpExp_upper [OF x] have "x < 2 ^ 53 * ?u" by (simp only: powr_shift)
  with u have "x / ?u \<le> of_int (2 ^ 53)" by (simp add: divide_le_eq)
  then have n53: "n \<le> 2 ^ 53" unfolding n_def by (rule roundEven_le)
  show ?thesis
  proof (cases "n = 2 ^ 53")
    case False
    with n0 n53 have "\<bar>n\<bar> < 2 ^ 53" by simp
    from fl_dyadic [OF this k] show ?thesis unfolding flx .
  next
    case True
    have "(2::real) powr (of_int ?k + 1) = ?u * 2 powr 1" by (rule powr_add)
    then have "of_int n * ?u = of_int (2 ^ 52) * 2 powr of_int (?k + 1)"
      unfolding True by simp
    moreover have "fl (of_int (2 ^ 52) * 2 powr of_int (?k + 1)) = of_int (2 ^ 52) * 2 powr of_int (?k + 1)"
      using k by (intro fl_dyadic) simp_all
    ultimately show ?thesis unfolding flx by simp
  qed
qed

lemma fl_idem [simp]: "fl (fl x) = fl x"
proof -
  consider "0 < x" | "x = 0" | "0 < - x" by linarith
  then show ?thesis
  proof cases
    case 1
    then show ?thesis by (rule fl_idem_pos)
  next
    case 2
    then show ?thesis by simp
  next
    case 3
    from fl_idem_pos [OF 3] have "fl (- fl x) = - fl x" by (simp only: fl_minus)
    then show ?thesis by (simp add: fl_minus)
  qed
qed

lemma fl_quotient_fl: "0 < fl b \<Longrightarrow> fl (fl a / fl b) < 1 \<longleftrightarrow> fl a < fl b"
  by (rule fl_quotient_lt_one) simp_all

subsection \<open>The capture machine\<close>

lemma scanRows_Some: "\<exists>out'. scanRows base w inc rs out = Some out'"
  by (induction rs arbitrary: out) (simp_all add: scanLine_def split: prod.splits)

lemma scanCandidates_Some:
  "rows (grid w) * cols (grid w) \<le> length (cells w) \<Longrightarrow> \<exists>cands. scanCandidates p w = Some cands"
  by (simp add: scanCandidates_def scanRows_Some)

lemma wordUnderSpotlight_Some:
  assumes "rows (grid w) * cols (grid w) \<le> length (cells w)"
  shows "\<exists>detected w1. wordUnderSpotlight p w = Some (detected, w1)"
proof -
  from scanCandidates_Some [OF assms, of p] obtain cands where "scanCandidates p w = Some cands" ..
  then show ?thesis
    by (simp add: wordUnderSpotlight_def Let_def split: prod.splits)
qed

lemma wordUnderSpotlight_frame:
  assumes "wordUnderSpotlight p w = Some (detected, w1)"
  shows "capture w1 = capture w \<and> mouse w1 = mouse w \<and> cells w1 = cells w \<and> words w1 = words w \<and>
     sentence w1 = sentence w \<and> grid w1 = grid w \<and> trie w1 = trie w"
  using assms
  by (auto simp: wordUnderSpotlight_def Let_def split: option.splits if_splits prod.splits)

lemma updateCapture_holding:
  assumes h: "holding w frozen s" and scan: "wordUnderSpotlight p w = Some (detected, w1)"
  shows "updateCapture p now dt w =
    (let prog = holdProgress p s now
     in if prog \<ge> 1 then
          (case finalizeCapture p (w1\<lparr>capture := (capture w)\<lparr>progress01 := prog\<rparr>\<rparr>) frozen of
             None \<Rightarrow> None
           | Some w2 \<Rightarrow> Some (w2\<lparr>capture := idleCapture (capture w2)\<rparr>))
        else Some (w1\<lparr>capture := (capture w)\<lparr>progress01 := prog\<rparr>\<rparr>))"
proof -
  from wordUnderSpotlight_frame [OF scan] have fr: "capture w1 = capture w" "mouse w1 = mouse w"
    by simp_all
  from h show ?thesis
    by (simp add: updateCapture_def scan fr holding_def Let_def idleCapture_def split: option.split)
qed

lemma updateCapture_released:
  assumes "\<not> down (mouse w)" and scan: "wordUnderSpotlight p w = Some (detected, w1)"
  shows "updateCapture p now dt w = Some (w1\<lparr>capture := idleCapture (capture w)\<rparr>)"
proof -
  from wordUnderSpotlight_frame [OF scan] have fr: "capture w1 = capture w" "mouse w1 = mouse w"
    by simp_all
  from assms(1) show ?thesis
    by (simp add: updateCapture_def scan fr Let_def idleCapture_def)
qed



lemma holdProgress_lt_one:
  "holdProgress p s now < 1 \<longleftrightarrow>
     fl (fl (now - s) / fl (holdToCaptureSeconds p * 1000)) < 1"
  by (auto simp: holdProgress_def clamp_def min_def max_def)

lemma holdProgress_lt_iff:
  "0 < fl (holdToCaptureSeconds p * 1000) \<Longrightarrow>
   holdProgress p s now < 1 \<longleftrightarrow> fl (now - s) < fl (holdToCaptureSeconds p * 1000)"
  by (simp only: holdProgress_lt_one fl_quotient_fl)

lemma holdProgress_exact:
  assumes "fl (now - s) = now - s"
    and "fl (holdToCaptureSeconds p * 1000) = holdToCaptureSeconds p * 1000"
    and "0 < holdToCaptureSeconds p"
  shows "holdProgress p s now < 1 \<longleftrightarrow> now - s < holdToCaptureSeconds p * 1000"
proof -
  from assms(3) have "0 < holdToCaptureSeconds p * 1000" by simp
  from fl_quotient_lt_one [OF assms(1,2) this] show ?thesis
    unfolding holdProgress_lt_one assms(1,2) .
qed

text \<open>
  A hold of one second that started at the double nearest to 0.3, read at the double nearest
  to 1000.3: the two readings are less than a second apart, their difference rounds to 1000,
  and the progress is 1.
\<close>

lemma hold_rounds_up:
  "(4399365925057331 / 2 ^ 42 - 5404319552844595 / 2 ^ 54 :: real) <
     holdToCaptureSeconds demoPrefs * 1000 \<and>
   holdProgress demoPrefs (5404319552844595 / 2 ^ 54) (4399365925057331 / 2 ^ 42) = 1"
proof -
  have "fl (4399365925057331 / 2 ^ 42 - 5404319552844595 / 2 ^ 54) = 1000"
    by (subst fl_eval_large [where m = 9]) (simp_all add: roundEven_def Let_def)
  then show ?thesis by (simp add: holdProgress_def demoPrefs_def clamp_def)
qed






text \<open>
  C2, as the code has it. During a hold the candidate that the scanner recomputes is not
  compared with the frozen one: \<^verbatim>\<open>current\<close> is the frozen candidate, so its key is the stored
  key. The hold duration is positive and finite. While the button stays down and the elapsed
  time is below the duration (both as the machine computes them, in double arithmetic), the
  update keeps the machine holding the frozen candidate with its start time and its key,
  whatever the scanner returned, and sets the progress to the elapsed fraction. The machine becomes idle with progress 0, with no
  partial credit kept, when the button is released, at any time.
\<close>

theorem hold_ignores_live_candidate:
  assumes act: "active (capture w)" and fro: "wordUnderSpot (capture w) = Some frozen"
    and ky: "key (capture w) = Some (candidateKey (Some frozen))"
    and wf: "rows (grid w) * cols (grid w) \<le> length (cells w)"
    and d: "0 < fl (holdToCaptureSeconds p * 1000)"
    and fin: "fl (holdToCaptureSeconds p * 1000) < 2 ^ 1024"
  shows "(down (mouse w) \<and>
        fl (now - startMs (capture w)) < fl (holdToCaptureSeconds p * 1000) \<longrightarrow>
      (\<exists>detected w1. wordUnderSpotlight p w = Some (detected, w1) \<and>
         updateCapture p now dt w =
           Some (w1\<lparr>capture := (capture w)
              \<lparr>progress01 := holdProgress p (startMs (capture w)) now\<rparr>\<rparr>)) \<and>
      (\<exists>w'. updateCapture p now dt w = Some w' \<and> active (capture w') \<and>
         wordUnderSpot (capture w') = Some frozen \<and> startMs (capture w') = startMs (capture w) \<and>
         key (capture w') = key (capture w) \<and>
         progress01 (capture w') = holdProgress p (startMs (capture w)) now)) \<and>
    (\<not> down (mouse w) \<longrightarrow>
      (\<exists>w'. updateCapture p now dt w = Some w' \<and> \<not> active (capture w') \<and>
         wordUnderSpot (capture w') = None \<and> progress01 (capture w') = 0))"
proof (intro conjI impI)
  let ?s = "startMs (capture w)"
  let ?prog = "holdProgress p ?s now"
  from wordUnderSpotlight_Some [OF wf, of p] obtain detected w1 where
    scan: "wordUnderSpotlight p w = Some (detected, w1)" by (elim exE)
  {
    assume "down (mouse w) \<and> fl (now - ?s) < fl (holdToCaptureSeconds p * 1000)"
    then have dn: "down (mouse w)" and lt: "?prog < 1"
      by (simp_all only: holdProgress_lt_iff [OF d])
    from dn act fro ky have h: "holding w frozen ?s" by (simp add: holding_def)
    from lt have upd: "updateCapture p now dt w = Some (w1\<lparr>capture := (capture w)\<lparr>progress01 := ?prog\<rparr>\<rparr>)"
      by (simp add: updateCapture_holding [OF h scan] Let_def)
    with scan show "\<exists>detected w1. wordUnderSpotlight p w = Some (detected, w1) \<and>
         updateCapture p now dt w = Some (w1\<lparr>capture := (capture w)\<lparr>progress01 := ?prog\<rparr>\<rparr>)"
      by (intro exI conjI)
    from upd act fro show "\<exists>w'. updateCapture p now dt w = Some w' \<and> active (capture w') \<and>
         wordUnderSpot (capture w') = Some frozen \<and> startMs (capture w') = ?s \<and>
         key (capture w') = key (capture w) \<and> progress01 (capture w') = ?prog"
      by simp
  }
  {
    assume up: "\<not> down (mouse w)"
    from updateCapture_released [OF up scan, of now dt]
    show "\<exists>w'. updateCapture p now dt w = Some w' \<and> \<not> active (capture w') \<and>
         wordUnderSpot (capture w') = None \<and> progress01 (capture w') = 0"
      by (simp add: idleCapture_def)
  }
qed

lemmas scan_eval =
  includeAll_def includeRow_def mkWorld_def lockCells_def gridCells_def mkCell_def
  getCellIndex_def inCircle_def inside_def clamp_def demoPrefs_def upt_rec scanLine_def
  lineStart.simps lineLoop.simps segLoop.simps segCellAt_def inBounds_def buildTrie_def
  emptyNode_def rowCandidate_def

lemma car_scan: "scanCandidates demoPrefs carWorld = Some [rowCandidate 3 2 ''car'' 0 0]"
  by (simp add: scanCandidates_def carWorld_def scan_eval)

lemma pick_single:
  "0 \<le> g 0 \<Longrightarrow> g 0 < 1 \<Longrightarrow> pickLongest [c] g = (Some c, \<lambda>n. g (Suc n))"
  by (simp add: pickLongest_def rng_next_def Let_def)

lemma car_detect:
  "wordUnderSpotlight demoPrefs carWorld =
     Some (Some (rowCandidate 3 2 ''car'' 0 0), carWorld\<lparr>nextOid := 3, rng := \<lambda>_. 0\<rparr>)"
proof -
  have g: "rng carWorld = (\<lambda>_. 0)" "nextOid carWorld = 2"
    by (simp_all add: carWorld_def mkWorld_def)
  have ok: "lengthOk (minWordLength demoPrefs) (maxWordLength demoPrefs) (cand_word (rowCandidate 3 2 ''car'' 0 0))"
    by (simp add: lengthOk_def demoPrefs_def rowCandidate_def)
  show ?thesis
    by (simp add: wordUnderSpotlight_def car_scan ok g pick_single Let_def)
qed

lemma key_cat: "candidateKey (Some (rowCandidate 3 0 ''cat'' 0 0)) = ''cat:0-1-2''"
  by (simp add: candidateKey_def rowCandidate_def showInt_def showNat.simps)

lemma key_car: "candidateKey (Some (rowCandidate 3 2 ''car'' 0 0)) = ''car:0-1-2''"
  by (simp add: candidateKey_def rowCandidate_def showInt_def showNat.simps)

lemma car_capture:
  "active (capture carWorld)" "down (mouse carWorld)" "startMs (capture carWorld) = 0"
  "wordUnderSpot (capture carWorld) = Some (rowCandidate 3 0 ''cat'' 0 0)"
  "key (capture carWorld) = Some (candidateKey (Some (rowCandidate 3 0 ''cat'' 0 0)))"
  "holdToCaptureSeconds demoPrefs = 1"
  "rows (grid carWorld) * cols (grid carWorld) \<le> length (cells carWorld)"
  by (simp_all add: carWorld_def mkWorld_def demoPrefs_def gridCells_def)

text \<open>
  The progress of a hold of one second that started at 0, read at 100 ms: the double 0.1.
\<close>

lemma fl_unit:
  assumes "0 \<le> q" "q \<le> 1 - 1 / 2 ^ 53"
  shows "clamp (fl q) 0 1 = fl q" "fl q < 1"
proof -
  from assms(2) show lt: "fl q < 1" by (rule fl_lt_one)
  from fl_nonneg [OF assms(1)] lt show "clamp (fl q) 0 1 = fl q" by (simp add: clamp_def)
qed

lemma car_progress:
  "holdProgress demoPrefs 0 100 = fl (1 / 10)" "holdProgress demoPrefs 0 100 < 1"
  using fl_unit [of "1 / 10"] by (simp_all add: holdProgress_def demoPrefs_def)

text \<open>
  C2 as stated fails: in \<open>carWorld\<close> a hold on "cat" is active, the button is down, the scanner
  now finds "car" on the same cells (another identity key), and the update at 100 ms leaves
  the machine holding, with the progress 0.1, as a double.
\<close>

theorem reset_on_key_change_counterexample:
  "active (capture carWorld) \<and> down (mouse carWorld) \<and>
   wordUnderSpot (capture carWorld) = Some (rowCandidate 3 0 ''cat'' 0 0) \<and>
   fst (the (wordUnderSpotlight demoPrefs carWorld)) = Some (rowCandidate 3 2 ''car'' 0 0) \<and>
   candidateKey (fst (the (wordUnderSpotlight demoPrefs carWorld))) \<noteq>
     candidateKey (wordUnderSpot (capture carWorld)) \<and>
   updateCapture demoPrefs 100 0 carWorld \<noteq> None \<and>
   active (capture (the (updateCapture demoPrefs 100 0 carWorld))) \<and>
   progress01 (capture (the (updateCapture demoPrefs 100 0 carWorld))) = fl (1 / 10)"
proof -
  have h: "holding carWorld (rowCandidate 3 0 ''cat'' 0 0) 0"
    by (simp add: holding_def car_capture)
  have upd: "updateCapture demoPrefs 100 0 carWorld =
      Some (carWorld\<lparr>nextOid := 3, rng := \<lambda>_. 0,
        capture := (capture carWorld)\<lparr>progress01 := fl (1 / 10)\<rparr>\<rparr>)"
    using car_progress(2)
    by (simp add: updateCapture_holding [OF h car_detect] car_progress(1) Let_def)
  have kk: "candidateKey (Some (rowCandidate 3 2 ''car'' 0 0)) \<noteq>
      candidateKey (Some (rowCandidate 3 0 ''cat'' 0 0))"
    by (simp add: key_cat key_car)
  then have keys: "candidateKey (fst (the (wordUnderSpotlight demoPrefs carWorld))) \<noteq>
     candidateKey (wordUnderSpot (capture carWorld))"
    by (simp add: car_detect car_capture(4))
  show ?thesis
    by (simp add: upd kk car_capture car_detect)
qed

text \<open>
  In \<open>carWorld\<close> the update at 100 ms keeps the hold on "cat"; and with the button up the update
  leaves the machine idle.
\<close>

theorem hold_ignores_live_candidate_witness:
  "down (mouse carWorld) \<and>
   (\<exists>w'. updateCapture demoPrefs 100 0 carWorld = Some w' \<and> active (capture w') \<and>
      wordUnderSpot (capture w') = Some (rowCandidate 3 0 ''cat'' 0 0) \<and>
      progress01 (capture w') = fl (1 / 10) \<and> progress01 (capture w') < 1) \<and>
   \<not> down (mouse (carWorld\<lparr>mouse := (mouse carWorld)\<lparr>down := False\<rparr>\<rparr>)) \<and>
   (\<exists>w'. updateCapture demoPrefs 100 0 (carWorld\<lparr>mouse := (mouse carWorld)\<lparr>down := False\<rparr>\<rparr>) =
        Some w' \<and>
      \<not> active (capture w') \<and> wordUnderSpot (capture w') = None \<and> progress01 (capture w') = 0)"
proof -
  let ?up = "carWorld\<lparr>mouse := (mouse carWorld)\<lparr>down := False\<rparr>\<rparr>"
  have d: "0 < fl (holdToCaptureSeconds demoPrefs * 1000)" by (simp add: car_capture)
  have fin: "fl (holdToCaptureSeconds demoPrefs * 1000) < 2 ^ 1024" by (simp add: car_capture)
  have s0: "startMs (capture carWorld) = 0" by (rule car_capture(3))
  note th = hold_ignores_live_candidate
    [OF car_capture(1) car_capture(4) car_capture(5) car_capture(7) d fin, of 100 0]
  from th have "down (mouse carWorld) \<and>
        fl (100 - startMs (capture carWorld)) < fl (holdToCaptureSeconds demoPrefs * 1000) \<longrightarrow>
      (\<exists>detected w1. wordUnderSpotlight demoPrefs carWorld = Some (detected, w1) \<and>
         updateCapture demoPrefs 100 0 carWorld =
           Some (w1\<lparr>capture := (capture carWorld)
              \<lparr>progress01 := holdProgress demoPrefs (startMs (capture carWorld)) 100\<rparr>\<rparr>)) \<and>
      (\<exists>w'. updateCapture demoPrefs 100 0 carWorld = Some w' \<and> active (capture w') \<and>
         wordUnderSpot (capture w') = Some (rowCandidate 3 0 ''cat'' 0 0) \<and>
         startMs (capture w') = startMs (capture carWorld) \<and>
         key (capture w') = key (capture carWorld) \<and>
         progress01 (capture w') = holdProgress demoPrefs (startMs (capture carWorld)) 100)"
    by (rule conjunct1)
  moreover have "down (mouse carWorld) \<and>
        fl (100 - startMs (capture carWorld)) < fl (holdToCaptureSeconds demoPrefs * 1000)"
    by (simp add: car_capture)
  ultimately have "(\<exists>detected w1. wordUnderSpotlight demoPrefs carWorld = Some (detected, w1) \<and>
         updateCapture demoPrefs 100 0 carWorld =
           Some (w1\<lparr>capture := (capture carWorld)
              \<lparr>progress01 := holdProgress demoPrefs (startMs (capture carWorld)) 100\<rparr>\<rparr>)) \<and>
      (\<exists>w'. updateCapture demoPrefs 100 0 carWorld = Some w' \<and> active (capture w') \<and>
         wordUnderSpot (capture w') = Some (rowCandidate 3 0 ''cat'' 0 0) \<and>
         startMs (capture w') = startMs (capture carWorld) \<and>
         key (capture w') = key (capture carWorld) \<and>
         progress01 (capture w') = holdProgress demoPrefs (startMs (capture carWorld)) 100)"
    by (rule mp)
  then have "\<exists>w'. updateCapture demoPrefs 100 0 carWorld = Some w' \<and>
      active (capture w') \<and> wordUnderSpot (capture w') = Some (rowCandidate 3 0 ''cat'' 0 0) \<and>
      startMs (capture w') = startMs (capture carWorld) \<and>
      key (capture w') = key (capture carWorld) \<and>
      progress01 (capture w') = holdProgress demoPrefs (startMs (capture carWorld)) 100"
    by (rule conjunct2)
  then obtain w' where w': "updateCapture demoPrefs 100 0 carWorld = Some w'"
    "active (capture w')" "wordUnderSpot (capture w') = Some (rowCandidate 3 0 ''cat'' 0 0)"
    "progress01 (capture w') = holdProgress demoPrefs (startMs (capture carWorld)) 100"
    by (elim exE conjE)
  from w'(4) have p: "progress01 (capture w') = fl (1 / 10)" "progress01 (capture w') < 1"
    unfolding s0 using car_progress by simp_all
  from w'(1,2,3) p have held: "\<exists>w'. updateCapture demoPrefs 100 0 carWorld = Some w' \<and>
      active (capture w') \<and> wordUnderSpot (capture w') = Some (rowCandidate 3 0 ''cat'' 0 0) \<and>
      progress01 (capture w') = fl (1 / 10) \<and> progress01 (capture w') < 1"
    by - (intro conjI exI [of _ w']; assumption)
  have up: "active (capture ?up)"
    "wordUnderSpot (capture ?up) = Some (rowCandidate 3 0 ''cat'' 0 0)"
    "key (capture ?up) = Some (candidateKey (Some (rowCandidate 3 0 ''cat'' 0 0)))"
    "rows (grid ?up) * cols (grid ?up) \<le> length (cells ?up)" "\<not> down (mouse ?up)"
    using car_capture by simp_all
  from hold_ignores_live_candidate [OF up(1,2,3,4) d fin, of 100 0]
  have "\<not> down (mouse ?up) \<longrightarrow>
      (\<exists>w'. updateCapture demoPrefs 100 0 ?up = Some w' \<and> \<not> active (capture w') \<and>
         wordUnderSpot (capture w') = None \<and> progress01 (capture w') = 0)"
    by (rule conjunct2)
  from this up(5) have released: "\<exists>w'. updateCapture demoPrefs 100 0 ?up = Some w' \<and>
      \<not> active (capture w') \<and> wordUnderSpot (capture w') = None \<and> progress01 (capture w') = 0"
    by (rule mp)
  from car_capture(2) held up(5) released show ?thesis by (intro conjI)
qed

lemma updateCapture_start:
  assumes "\<not> active (capture w)" "down (mouse w)"
    and scan: "wordUnderSpotlight p w = Some (Some c, w1)"
  shows "updateCapture p now dt w =
    Some (w1\<lparr>capture := (capture w)\<lparr>active := True, wordUnderSpot := Some c,
             key := Some (candidateKey (Some c)), startMs := now, progress01 := 0\<rparr>\<rparr>)"
proof -
  from wordUnderSpotlight_frame [OF scan] have fr: "capture w1 = capture w" "mouse w1 = mouse w"
    by simp_all
  from assms(1,2) show ?thesis
    by (simp add: updateCapture_def scan fr Let_def)
qed

lemma cat_scan_gen:
  "scanCandidates demoPrefs (catWorld\<lparr>nextOid := n, capture := cap, rng := g\<rparr>) =
     Some [rowCandidate 5 n ''cat'' 2 0]"
  by (simp add: scanCandidates_def catWorld_def scan_eval)

lemma cat_detect:
  "wordUnderSpotlight demoPrefs (catWorld\<lparr>nextOid := n, capture := cap, rng := \<lambda>_. 0\<rparr>) =
     Some (Some (rowCandidate 5 n ''cat'' 2 0),
           catWorld\<lparr>nextOid := n + 1, capture := cap, rng := \<lambda>_. 0\<rparr>)"
proof -
  have ok: "lengthOk (minWordLength demoPrefs) (maxWordLength demoPrefs)
      (cand_word (rowCandidate 5 n ''cat'' 2 0))"
    by (simp add: lengthOk_def demoPrefs_def rowCandidate_def)
  show ?thesis
    by (simp add: wordUnderSpotlight_def cat_scan_gen ok pick_single Let_def)
qed

lemma catWorld_eq: "catWorld = catWorld\<lparr>nextOid := 3, capture := capture catWorld, rng := \<lambda>_. 0\<rparr>"
  by (simp add: catWorld_def mkWorld_def)

lemma cat_start:
  "updateCapture demoPrefs 0 0 catWorld = Some (catHolding\<lparr>rng := \<lambda>_. 0\<rparr>)"
proof -
  have scan: "wordUnderSpotlight demoPrefs catWorld =
     Some (Some (rowCandidate 5 3 ''cat'' 2 0),
           catWorld\<lparr>nextOid := 4, capture := capture catWorld, rng := \<lambda>_. 0\<rparr>)"
    using cat_detect [where n = 3 and cap = "capture catWorld"] catWorld_eq by simp
  have idle: "\<not> active (capture catWorld)" "down (mouse catWorld)"
    by (simp_all add: catWorld_def mkWorld_def)
  show ?thesis
    unfolding updateCapture_start [OF idle scan]
    by (simp add: catHolding_def catWorld_def mkWorld_def)
qed

lemma catHolding_rng: "catHolding\<lparr>rng := \<lambda>_. 0\<rparr> = catHolding"
  by (simp add: catHolding_def catWorld_def mkWorld_def)

lemma catHolding_eq:
  "catHolding = catWorld\<lparr>nextOid := 4, capture := capture catHolding, rng := \<lambda>_. 0\<rparr>"
  by (simp add: catHolding_def catWorld_def mkWorld_def)

lemma catHolding_facts:
  "holding catHolding (rowCandidate 5 3 ''cat'' 2 0) 0"
  "rows (grid catHolding) * cols (grid catHolding) \<le> length (cells catHolding)"
  "validParts catHolding (rowCandidate 5 3 ''cat'' 2 0)"
  "holdToCaptureSeconds demoPrefs = 1"
  "sentence catHolding = []"
  "maxSentenceWords demoPrefs = 2"
  by (simp_all add: holding_def validParts_def catHolding_def catWorld_def mkWorld_def demoPrefs_def
      gridCells_def lockCells_def rowCandidate_def)

lemma cat_commit:
  "\<exists>w'. updateCapture demoPrefs 1000 0 catHolding = Some w' \<and> sentence w' = [''cat''] \<and>
     \<not> active (capture w') \<and> progress01 (capture w') = 0 \<and>
     \<not> locked (cells w' ! 10) \<and> \<not> locked (cells w' ! 11) \<and> \<not> locked (cells w' ! 12) \<and>
     words w' = [rowWord 5 2 ''cat'' 2 0]"
proof -
  have scan: "wordUnderSpotlight demoPrefs catHolding =
     Some (Some (rowCandidate 5 4 ''cat'' 2 0),
           catWorld\<lparr>nextOid := 5, capture := capture catHolding, rng := \<lambda>_. 0\<rparr>)"
    using cat_detect [where n = 4 and cap = "capture catHolding"] catHolding_eq by simp
  have idx: "indexOfWord [rowWord 5 2 ''cat'' 2 0] (rowCandidate 5 3 ''cat'' 2 0) = - 1"
    by (simp add: indexOfWord_def rowWord_def rowCandidate_def)
  have sel: "cand_word (rowCandidate 5 3 ''cat'' 2 0) = ''cat''"
    "map seg_idx (cand_cells (rowCandidate 5 3 ''cat'' 2 0)) = [10, 11, 12]"
    by (simp_all add: rowCandidate_def)
  show ?thesis
    unfolding updateCapture_holding [OF catHolding_facts(1) scan]
    by (simp add: holdProgress_def catHolding_facts(4) clamp_def Let_def finalizeCapture_def idx sel pushWord_def
        catHolding_def catWorld_def mkWorld_def demoPrefs_def gridCells_def lockCells_def
        mkCell_def cellAt_def idleCapture_def)
qed

text \<open>
  C3, the code in the scenario of the specification. The first update starts the hold on
  the scanned candidate; the update one hold duration later commits: the sentence is
  \<^verbatim>\<open>["cat"]\<close>, the capture state is reset and the three cells are unlocked. The placed word
  stays in \<^verbatim>\<open>world.words\<close>: \<^verbatim>\<open>indexOf\<close> looks for the candidate object, which is not the
  object that \<^verbatim>\<open>seedOneWord\<close> pushed, and finds nothing.
\<close>

theorem cat_commit_keeps_placed_word:
  "\<exists>w'. captureRun demoPrefs 0 catWorld [0, 1000] = Some w' \<and> sentence w' = [''cat''] \<and>
     \<not> active (capture w') \<and> progress01 (capture w') = 0 \<and>
     \<not> locked (cells w' ! 10) \<and> \<not> locked (cells w' ! 11) \<and> \<not> locked (cells w' ! 12) \<and>
     words w' = [rowWord 5 2 ''cat'' 2 0]"
proof -
  have "captureRun demoPrefs 0 catWorld [0, 1000] = updateCapture demoPrefs 1000 0 catHolding"
    by (simp add: cat_start catHolding_rng split: option.split)
  with cat_commit show ?thesis by simp
qed


subsection \<open>Placement exclusivity\<close>

lemma seedAttempts_const_fail:
  assumes g: "rng w = (\<lambda>_. u)" and h: "\<not> u < 1 / 2"
    and fits: "length word \<le> cols (grid w)"
    and busy: "\<not> placementFree w \<lfloor>u * real (rows (grid w))\<rfloor>
                 \<lfloor>u * real_of_int (int (cols (grid w)) - int (length word) + 1)\<rfloor> (length word) H"
  shows "seedAttempts n word w = (False, w)"
proof (induction n)
  case 0
  show ?case by simp
next
  case (Suc n)
  have same: "w\<lparr>rng := \<lambda>_. u\<rparr> = w" using g by (cases w) simp
  from h fits busy Suc.IH show ?case
    by (simp add: g rng_next_def Let_def same)
qed

lemmas seedLoop_numeral = seedLoop.simps(2) [where n = "pred_numeral k" for k, folded numeral_eq_Suc]

lemma redWorld_sel:
  "rng (redWorld cs ws sent cap dn oid) = (\<lambda>_. 7 / 10)"
  "grid (redWorld cs ws sent cap dn oid) = \<lparr>rows = 4, cols = 3\<rparr>"
  "cells (redWorld cs ws sent cap dn oid) = cs"
  "words (redWorld cs ws sent cap dn oid) = ws"
  "sentence (redWorld cs ws sent cap dn oid) = sent"
  "capture (redWorld cs ws sent cap dn oid) = cap"
  "mouse (redWorld cs ws sent cap dn oid) = \<lparr>mouse_x = 15, mouse_y = 25, down = dn\<rparr>"
  "trie (redWorld cs ws sent cap dn oid) = buildTrie DICTIONARY"
  "nextOid (redWorld cs ws sent cap dn oid) = oid"
  by (simp_all add: redWorld_def seedWorld_def mkWorld_def)

lemma redWorld_upd:
  "(redWorld cs ws sent cap dn oid)\<lparr>cells := cs'\<rparr> = redWorld cs' ws sent cap dn oid"
  "(redWorld cs ws sent cap dn oid)\<lparr>words := ws'\<rparr> = redWorld cs ws' sent cap dn oid"
  "(redWorld cs ws sent cap dn oid)\<lparr>sentence := sent'\<rparr> = redWorld cs ws sent' cap dn oid"
  "(redWorld cs ws sent cap dn oid)\<lparr>capture := cap'\<rparr> = redWorld cs ws sent cap' dn oid"
  "(redWorld cs ws sent cap dn oid)\<lparr>nextOid := oid'\<rparr> = redWorld cs ws sent cap dn oid'"
  "(redWorld cs ws sent cap dn oid)\<lparr>rng := \<lambda>_. 7 / 10\<rparr> = redWorld cs ws sent cap dn oid"
  "(redWorld cs ws sent cap dn oid)\<lparr>mouse := \<lparr>mouse_x = 15, mouse_y = 25, down = dn'\<rparr>\<rparr> = redWorld cs ws sent cap dn' oid"
  by (simp_all add: redWorld_def seedWorld_def mkWorld_def)

lemma seed_cells_len: "length (cells seedWorld) = 12"
  by (simp add: seedWorld_def mkWorld_def gridCells_def)

lemmas cells_eval = seedWorld_def mkWorld_def gridCells_def mkCell_def upt_rec redCells_def

lemma steady_cell:
  "fadeDir c = 0 \<Longrightarrow> locked c \<or> now < nextAt c \<Longrightarrow> speed c = 0 \<Longrightarrow> updateCell p now dt c g = (c, g)"
  by (auto simp: updateCell_def)

lemma letters1:
  "updateLetters demoPrefs 50 (1 / 20) (redWorld (cells seedWorld) [] [] idle0 False 10) =
     redWorld (cells seedWorld) [] [] idle0 False 10"
  by (simp add: updateLetters_def redWorld_sel redWorld_upd cells_eval steady_cell)

lemma red_source: "wordSource DICTIONARY (minWordLength demoPrefs) (maxWordLength demoPrefs) = [''red'']"
  by (simp add: wordSource_def DICTIONARY_def demoPrefs_def lengthOk_def)

lemma red_choose: "chooseWord DICTIONARY (\<lambda>_. 7 / 10) (minWordLength demoPrefs) (maxWordLength demoPrefs) = (Some ''red'', \<lambda>_. 7 / 10)"
  by (simp add: chooseWord_def red_source rng_next_def)

lemma root_x: "node_c (buildTrie DICTIONARY) CHR ''x'' = None"
  by (simp add: buildTrie_def DICTIONARY_def emptyNode_def)

lemma scanFrom_x:
  "seg_ch sc = CHR ''x'' \<Longrightarrow> scanFrom base first (buildTrie DICTIONARY) word taken (sc # rest) out = out"
  by (simp add: root_x)

lemma seg_x:
  "\<forall>sc \<in> set seg. seg_ch sc = CHR ''x'' \<Longrightarrow>
   scanSegmentWithTrie base seg (buildTrie DICTIONARY) out = out"
  by (induction seg arbitrary: out) (simp_all add: scanFrom_x del: scanFrom.simps)

lemma seg_red:
  "scanSegmentWithTrie base
     [\<lparr>seg_r = r, seg_c = c0, seg_idx = i0, seg_ch = CHR ''r''\<rparr>,
      \<lparr>seg_r = r, seg_c = c1, seg_idx = i1, seg_ch = CHR ''e''\<rparr>,
      \<lparr>seg_r = r, seg_c = c2, seg_idx = i2, seg_ch = CHR ''d''\<rparr>]
     (buildTrie DICTIONARY) out =
   out @ [\<lparr>cand_oid = base + length out, cand_word = ''red'', cand_r = r, cand_c = c0, cand_dir = H,
           cand_cells =
             [\<lparr>seg_r = r, seg_c = c0, seg_idx = i0, seg_ch = CHR ''r''\<rparr>,
              \<lparr>seg_r = r, seg_c = c1, seg_idx = i1, seg_ch = CHR ''e''\<rparr>,
              \<lparr>seg_r = r, seg_c = c2, seg_idx = i2, seg_ch = CHR ''d''\<rparr>]\<rparr>]"
  by (simp add: buildTrie_def DICTIONARY_def emptyNode_def)

lemmas scan_eval2 =
  scanCandidates_def includeAll_def includeRow_def getCellIndex_def inCircle_def inside_def
  clamp_def demoPrefs_def scanLine_def lineStart.simps lineLoop.simps segLoop.simps segCellAt_def
  inBounds_def

lemmas state_eval = staged_def black_def shown_def released_def restaged_def

lemma scan_staged:
  "scanCandidates demoPrefs (redWorld (redCells staged) ws sent cap dn oid) = Some []"
  by (simp add: scan_eval2 redWorld_sel cells_eval state_eval seg_x
      del: scanSegmentWithTrie.simps scanFrom.simps)

lemma scan_black:
  "scanCandidates demoPrefs (redWorld (redCells black) ws sent cap dn oid) = Some []"
  by (simp add: scan_eval2 redWorld_sel cells_eval state_eval seg_x
      del: scanSegmentWithTrie.simps scanFrom.simps)

lemma scan_restaged:
  "scanCandidates demoPrefs (redWorld (redCells restaged) ws sent cap dn oid) = Some []"
  by (simp add: scan_eval2 redWorld_sel cells_eval state_eval seg_x
      del: scanSegmentWithTrie.simps scanFrom.simps)

lemma scan_shown:
  "scanCandidates demoPrefs (redWorld (redCells shown) ws sent cap dn oid) =
     Some [rowCandidate 3 oid ''red'' 2 0]"
  by (simp add: scan_eval2 redWorld_sel cells_eval state_eval seg_x seg_red rowCandidate_def
      del: scanSegmentWithTrie.simps scanFrom.simps)

lemma prefs_sel:
  "holdToCaptureSeconds demoPrefs = 1" "maxSentenceWords demoPrefs = 2"
  "minActiveWords demoPrefs = 1" "maxActiveWords demoPrefs = 2"
  "seedWordsPerMinute demoPrefs = 1200" "fadeDurationRangeSec demoPrefs = (1 / 20, 1 / 20)"
  by (simp_all add: demoPrefs_def)

lemma detect_none:
  assumes "scanCandidates demoPrefs (redWorld cs ws sent cap dn oid) = Some []"
  shows "wordUnderSpotlight demoPrefs (redWorld cs ws sent cap dn oid) =
     Some (None, redWorld cs ws sent cap dn oid)"
  by (simp add: wordUnderSpotlight_def assms redWorld_sel redWorld_upd)

lemma detect_shown:
  "wordUnderSpotlight demoPrefs (redWorld (redCells shown) ws sent cap dn oid) =
     Some (Some (rowCandidate 3 oid ''red'' 2 0), redWorld (redCells shown) ws sent cap dn (oid + 1))"
proof -
  have ok: "lengthOk (minWordLength demoPrefs) (maxWordLength demoPrefs)
      (cand_word (rowCandidate 3 oid ''red'' 2 0))"
    by (simp add: lengthOk_def demoPrefs_def rowCandidate_def)
  show ?thesis
    by (simp add: wordUnderSpotlight_def scan_shown ok pick_single Let_def redWorld_sel redWorld_upd)
qed

lemma capture_idle:
  assumes "scanCandidates demoPrefs (redWorld cs ws sent cap dn oid) = Some []"
    and "\<not> active cap"
  shows "updateCapture demoPrefs now dt (redWorld cs ws sent cap dn oid) =
     Some (redWorld cs ws sent (idleCapture cap) dn oid)"
  using assms(2)
  by (simp add: updateCapture_def detect_none [OF assms(1)] redWorld_sel redWorld_upd Let_def
      idleCapture_def)

lemma capture3:
  "updateCapture demoPrefs 150 dt (redWorld (redCells shown) ws sent idle1 True 11) =
     Some (redWorld (redCells shown) ws sent redHold True 12)"
  by (simp add: updateCapture_def detect_shown redWorld_sel redWorld_upd Let_def idle1_def redHold_def)

lemma capture4:
  "updateCapture demoPrefs 1150 dt (redWorld (redCells shown) [rowWord 3 10 ''red'' 2 0] [] redHold True 12) =
     Some (redWorld (redCells released) [rowWord 3 10 ''red'' 2 0] [''red''] idle2 True 13)"
proof -
  have h: "holding (redWorld (redCells shown) [rowWord 3 10 ''red'' 2 0] [] redHold True 12)
      (rowCandidate 3 11 ''red'' 2 0) 150"
    by (simp add: holding_def redWorld_sel redHold_def)
  have idx: "indexOfWord [rowWord 3 10 ''red'' 2 0] (rowCandidate 3 11 ''red'' 2 0) = - 1"
    by (simp add: indexOfWord_def rowWord_def rowCandidate_def)
  have sel: "cand_word (rowCandidate 3 11 ''red'' 2 0) = ''red''"
    "map seg_idx (cand_cells (rowCandidate 3 11 ''red'' 2 0)) = [6, 7, 8]"
    by (simp_all add: rowCandidate_def)
  have rel: "releaseCells (redCells shown) [6, 7, 8] = Some (redCells released)"
    by (simp add: cellAt_def cells_eval state_eval)
  show ?thesis
    unfolding updateCapture_holding [OF h detect_shown]
    by (simp add: holdProgress_def clamp_def Let_def finalizeCapture_def idx sel rel pushWord_def
        prefs_sel redWorld_sel redWorld_upd idleCapture_def redHold_def idle2_def
        del: releaseCells.simps)
qed

lemmas state_eval2 = state_eval black2_def

lemmas letters_eval =
  updateLetters_def redWorld_sel redWorld_upd cells_eval state_eval2 steady_cell updateCell_def
  randBetween_def rng_next_def randomGridChar_def clamp_def prefs_sel Let_def

lemma letters_fresh:
  "updateLetters demoPrefs 50 (1 / 20) (redWorld (cells seedWorld) ws sent cap dn oid) =
     redWorld (cells seedWorld) ws sent cap dn oid"
  by (simp add: letters_eval)

lemma letters_staged:
  "updateLetters demoPrefs 100 (1 / 20) (redWorld (redCells staged) ws sent cap dn oid) =
     redWorld (redCells black) ws sent cap dn oid"
  by (simp add: letters_eval)

lemma letters_black:
  "updateLetters demoPrefs 150 (1 / 20) (redWorld (redCells black) ws sent cap dn oid) =
     redWorld (redCells shown) ws sent cap dn oid"
  by (simp add: letters_eval)

lemma letters_shown:
  "updateLetters demoPrefs 1150 (1 / 20) (redWorld (redCells shown) ws sent cap dn oid) =
     redWorld (redCells shown) ws sent cap dn oid"
  by (simp add: letters_eval)

lemma letters_released:
  "updateLetters demoPrefs 1200 (1 / 20) (redWorld (redCells released) ws sent cap dn oid) =
     redWorld (redCells black2) ws sent cap dn oid"
  by (simp add: letters_eval)

lemma blocked:
  assumes "\<And>c ch. locked (f c ch)"
  shows "\<not> placementFree (redWorld (redCells f) ws sent cap dn oid) 2 0 (length ''red'') H"
  by (simp add: placementFree_def redWorld_sel getCellIndex_def cellAt_def redCells_def
      seed_cells_len assms upt_rec)

lemma seed_blocked:
  assumes "\<And>c ch. locked (f c ch)"
  shows "seedOneWord demoPrefs DICTIONARY (redWorld (redCells f) ws sent cap dn oid) =
     Some (False, redWorld (redCells f) ws sent cap dn oid)"
proof -
  let ?w = "redWorld (redCells f) ws sent cap dn oid"
  have g: "rng ?w = (\<lambda>_. 7 / 10)" by (simp add: redWorld_sel)
  have h: "\<not> (7 / 10 :: real) < 1 / 2" by simp
  have fits: "length ''red'' \<le> cols (grid ?w)" by (simp add: redWorld_sel)
  have r: "\<lfloor>7 / 10 * real (rows (grid ?w))\<rfloor> = 2" by (simp add: redWorld_sel)
  have c: "\<lfloor>7 / 10 * real_of_int (int (cols (grid ?w)) - int (length ''red'') + 1)\<rfloor> = 0"
    by (simp add: redWorld_sel)
  have busy: "\<not> placementFree ?w \<lfloor>7 / 10 * real (rows (grid ?w))\<rfloor>
      \<lfloor>7 / 10 * real_of_int (int (cols (grid ?w)) - int (length ''red'') + 1)\<rfloor> (length ''red'') H"
    unfolding r c by (rule blocked [OF assms])
  have "seedAttempts 40 ''red'' ?w = (False, ?w)"
    using g h fits busy by (rule seedAttempts_const_fail)
  then show ?thesis
    by (simp add: seedOneWord_def red_choose redWorld_sel redWorld_upd del: seedAttempts.simps)
qed

lemma seeding_blocked:
  assumes "\<And>c ch. locked (f c ch)"
  shows "ensureWordSeeding demoPrefs DICTIONARY (1 / 20)
       (redWorld (redCells f) [rowWord 3 10 ''red'' 2 0] sent cap dn oid) =
     Some (redWorld (redCells f) [rowWord 3 10 ''red'' 2 0] sent cap dn oid)"
  apply (simp add: ensureWordSeeding_def evictLoop.simps seedLoop_numeral prefs_sel redWorld_sel
      redWorld_upd clamp_def rng_next_def seed_blocked [OF assms] del: seedLoop.simps)
  done

lemma seeding_fresh:
  "ensureWordSeeding demoPrefs DICTIONARY (1 / 20) (redWorld (cells seedWorld) [] [] cap dn 10) =
     Some (redWorld (redCells staged) [rowWord 3 10 ''red'' 2 0] [] cap dn 11)"
proof -
  have first: "seedOneWord demoPrefs DICTIONARY (redWorld (cells seedWorld) [] [] cap dn 10) =
     Some (True, redWorld (redCells staged) [rowWord 3 10 ''red'' 2 0] [] cap dn 11)"
    apply (simp add: seedOneWord_def red_choose redWorld_sel redWorld_upd del: seedAttempts.simps)
    apply (subst seedAttempts_numeral)
    apply (simp add: rng_next_def redWorld_sel redWorld_upd placementFree_def getCellIndex_def cellAt_def
        placeWord_def partIndex_def stageCell_def Let_def rowWord_def staged_def cells_eval
        del: seedAttempts.simps)
    done
  have lk: "\<And>c ch. locked (staged c ch)" by (simp add: staged_def)
  show ?thesis
    by (simp add: ensureWordSeeding_def evictLoop.simps seedLoop_numeral prefs_sel redWorld_sel
      redWorld_upd clamp_def rng_next_def first seed_blocked [OF lk] del: seedLoop.simps)
qed

lemma seeding_again:
  "ensureWordSeeding demoPrefs DICTIONARY (1 / 20)
       (redWorld (redCells black2) [rowWord 3 10 ''red'' 2 0] sent cap dn 13) =
     Some (redWorld (redCells restaged) [rowWord 3 10 ''red'' 2 0, rowWord 3 13 ''red'' 2 0]
             sent cap dn 14)"
proof -
  have again: "seedOneWord demoPrefs DICTIONARY
       (redWorld (redCells black2) [rowWord 3 10 ''red'' 2 0] sent cap dn 13) =
     Some (True, redWorld (redCells restaged) [rowWord 3 10 ''red'' 2 0, rowWord 3 13 ''red'' 2 0]
             sent cap dn 14)"
    apply (simp add: seedOneWord_def red_choose redWorld_sel redWorld_upd del: seedAttempts.simps)
    apply (subst seedAttempts_numeral)
    apply (simp add: rng_next_def redWorld_sel redWorld_upd placementFree_def getCellIndex_def cellAt_def
        placeWord_def partIndex_def stageCell_def Let_def rowWord_def state_eval2 cells_eval
        del: seedAttempts.simps)
    done
  show ?thesis
    by (simp add: ensureWordSeeding_def evictLoop.simps seedLoop_numeral prefs_sel redWorld_sel
      redWorld_upd clamp_def rng_next_def again del: seedLoop.simps)
qed

lemma seedWorld_mouse:
  "seedWorld\<lparr>mouse := \<lparr>mouse_x = 15, mouse_y = 25, down = dn\<rparr>\<rparr> =
     redWorld (cells seedWorld) [] [] idle0 dn 10"
  by (simp add: redWorld_def seedWorld_def mkWorld_def idle0_def)

lemma locked_states:
  "\<And>c ch. locked (staged c ch)" "\<And>c ch. locked (black c ch)" "\<And>c ch. locked (shown c ch)"
  by (simp_all add: state_eval)

lemma frame1:
  "step demoPrefs DICTIONARY 0 50 (redWorld (cells seedWorld) [] [] idle0 False 10) =
     Some (redWorld (redCells staged) [rowWord 3 10 ''red'' 2 0] [] idle1 False 11)"
  by (simp add: step_def letters_fresh seeding_fresh capture_idle [OF scan_staged]
      idle0_def idle1_def idleCapture_def)

lemma frame2:
  "step demoPrefs DICTIONARY 50 100
       (redWorld (redCells staged) [rowWord 3 10 ''red'' 2 0] [] idle1 False 11) =
     Some (redWorld (redCells black) [rowWord 3 10 ''red'' 2 0] [] idle1 False 11)"
  by (simp add: step_def letters_staged seeding_blocked [OF locked_states(2)]
      capture_idle [OF scan_black] idle1_def idleCapture_def)

lemma frame3:
  "step demoPrefs DICTIONARY 100 150
       (redWorld (redCells black) [rowWord 3 10 ''red'' 2 0] [] idle1 True 11) =
     Some (redWorld (redCells shown) [rowWord 3 10 ''red'' 2 0] [] redHold True 12)"
  by (simp add: step_def letters_black seeding_blocked [OF locked_states(3)] capture3)

lemma frame4:
  "step demoPrefs DICTIONARY 150 1150
       (redWorld (redCells shown) [rowWord 3 10 ''red'' 2 0] [] redHold True 12) =
     Some (redWorld (redCells released) [rowWord 3 10 ''red'' 2 0] [''red''] idle2 True 13)"
  by (simp add: step_def letters_shown seeding_blocked [OF locked_states(3)] capture4)

lemma frame5:
  "step demoPrefs DICTIONARY 1150 1200
       (redWorld (redCells released) [rowWord 3 10 ''red'' 2 0] [''red''] idle2 True 13) =
     Some (redWorld (redCells restaged) [rowWord 3 10 ''red'' 2 0, rowWord 3 13 ''red'' 2 0]
             [''red''] idle2 True 14)"
  by (simp add: step_def letters_released seeding_again capture_idle [OF scan_restaged]
      idle2_def idleCapture_def)

lemma seed_run:
  "runFrames demoPrefs DICTIONARY 0 seedWorld seedFrames =
     Some (redWorld (redCells restaged) [rowWord 3 10 ''red'' 2 0, rowWord 3 13 ''red'' 2 0]
             [''red''] idle2 True 14)"
  by (simp add: seedFrames_def seedWorld_mouse redWorld_upd frame1 frame2 frame3 frame4 frame5)

text \<open>
  C4, the code on five frames from a fresh world. The first frame seeds "red" on row 2
  (cells 6, 7, 8); the letters fade out and in; the third frame starts a hold on the
  scanned "red" and the fourth commits it, which unlocks the three cells and leaves the
  placed word in \<^verbatim>\<open>world.words\<close>; the fifth frame seeds "red" on the same free cells. Two
  distinct placed words now claim the cells 6, 7 and 8.
\<close>

theorem seeded_words_overlap:
  "\<exists>w'. runFrames demoPrefs DICTIONARY 0 seedWorld seedFrames = Some w' \<and>
     map pw_oid (words w') = [10, 13] \<and>
     map ref_idx (pw_cells (words w' ! 0)) = [6, 7, 8] \<and>
     map ref_idx (pw_cells (words w' ! 1)) = [6, 7, 8] \<and>
     sentence w' = [''red'']"
  by (simp add: seed_run redWorld_sel rowWord_def)

subsection \<open>The spotlight scanner\<close>

text \<open>
  The array \<^verbatim>\<open>include\<close> holds, at the index of a grid position, whether its cell is inside the
  spotlight and visible enough.
\<close>

text \<open>include\<close>

lemma foldl_upd_index:
  "foldl (\<lambda>inc x. inc(f x := P (f x))) inc xs idx =
     (if idx \<in> f ` set xs then P idx else inc idx)"
  by (induction xs arbitrary: inc) auto

lemma includeRow_apply:
  "includeRow p w inc ri idx =
     (if idx \<in> (\<lambda>ci. getCellIndex w (int ri) (int ci)) ` {0..<cols (grid w)}
      then inCircle p w (cells w ! nat idx) else inc idx)"
  unfolding includeRow_def
  using foldl_upd_index [of "\<lambda>ci. getCellIndex w (int ri) (int ci)"
      "\<lambda>i. inCircle p w (cells w ! nat i)" inc "[0..<cols (grid w)]" idx]
  by simp

lemma foldl_includeRow:
  "foldl (includeRow p w) inc rs idx =
     (if \<exists>ri \<in> set rs. \<exists>ci < cols (grid w). idx = getCellIndex w (int ri) (int ci)
      then inCircle p w (cells w ! nat idx) else inc idx)"
proof (induction rs arbitrary: inc)
  case Nil
  show ?case by simp
next
  case (Cons ri rs)
  show ?case
    unfolding foldl_Cons Cons.IH
    by (auto simp: includeRow_apply)
qed

lemma includeAll_cell:
  assumes "r < rows (grid w)" "c < cols (grid w)"
  shows "includeAll p w (getCellIndex w (int r) (int c)) =
     inCircle p w (cells w ! (r * cols (grid w) + c))"
proof -
  have "nat (getCellIndex w (int r) (int c)) = r * cols (grid w) + c"
    by (simp add: getCellIndex_def nat_add_distrib nat_mult_distrib)
  moreover have "\<exists>ri \<in> set [0..<rows (grid w)]. \<exists>ci < cols (grid w).
      getCellIndex w (int r) (int c) = getCellIndex w (int ri) (int ci)"
    using assms by auto
  ultimately show ?thesis
    unfolding includeAll_def foldl_includeRow by simp
qed

text \<open>scanFrom and scanSegmentWithTrie only append\<close>

lemma scanFrom_mono: "set out \<subseteq> set (scanFrom base first node word taken xs out)"
proof (induction xs arbitrary: node word taken out)
  case Nil
  show ?case by simp
next
  case (Cons x xs)
  show ?case
  proof (cases "node_c node (seg_ch x)")
    case None
    then show ?thesis by simp
  next
    case (Some node')
    have "set out \<subseteq> set (if node_t node' then
              out @ [\<lparr>cand_oid = base + length out, cand_word = word @ [seg_ch x],
                      cand_r = seg_r first, cand_c = seg_c first,
                      cand_dir = (if seg_r first = seg_r x then H else V),
                      cand_cells = taken @ [x]\<rparr>]
            else out)" by auto
    also have "\<dots> \<subseteq> set (scanFrom base first node word taken (x # xs) out)"
      using Some Cons.IH by simp
    finally show ?thesis .
  qed
qed

lemma scanSegment_mono: "set out \<subseteq> set (scanSegmentWithTrie base seg tr out)"
proof (induction seg arbitrary: out)
  case Nil
  show ?case by simp
next
  case (Cons x xs)
  have "set out \<subseteq> set (scanFrom base x tr [] [] (x # xs) out)" by (rule scanFrom_mono)
  also have "\<dots> \<subseteq> set (scanSegmentWithTrie base (x # xs) tr out)"
    using Cons.IH by simp
  finally show ?case .
qed

lemma scanFrom_finds:
  assumes "xs \<noteq> []" "walk node (map seg_ch xs) = Some n'" "node_t n'"
  shows "\<exists>cand \<in> set (scanFrom base first node word taken (xs @ rest) out).
      cand_word cand = word @ map seg_ch xs \<and> cand_cells cand = taken @ xs \<and>
      cand_r cand = seg_r first \<and> cand_c cand = seg_c first \<and>
      cand_dir cand = (if seg_r first = seg_r (last xs) then H else V)"
  using assms
proof (induction xs arbitrary: node word taken out)
  case Nil
  then show ?case by simp
next
  case (Cons x xs)
  from Cons.prems(2) obtain node1 where
    n1: "node_c node (seg_ch x) = Some node1" and w1: "walk node1 (map seg_ch xs) = Some n'"
    by (auto split: option.splits)
  let ?cand = "\<lparr>cand_oid = base + length out, cand_word = word @ [seg_ch x],
                 cand_r = seg_r first, cand_c = seg_c first,
                 cand_dir = (if seg_r first = seg_r x then H else V),
                 cand_cells = taken @ [x]\<rparr>"
  let ?out = "if node_t node1 then out @ [?cand] else out"
  have unfold: "scanFrom base first node word taken ((x # xs) @ rest) out =
      scanFrom base first node1 (word @ [seg_ch x]) (taken @ [x]) (xs @ rest) ?out"
    using n1 by simp
  show ?case
  proof (cases "xs = []")
    case True
    with w1 Cons.prems(3) have t: "node_t node1" by simp
    then have "?cand \<in> set ?out" by simp
    also have "set ?out \<subseteq> set (scanFrom base first node1 (word @ [seg_ch x]) (taken @ [x])
        (xs @ rest) ?out)" by (rule scanFrom_mono)
    finally have "?cand \<in> set (scanFrom base first node word taken ((x # xs) @ rest) out)"
      unfolding unfold .
    moreover have "cand_word ?cand = word @ map seg_ch (x # xs) \<and>
        cand_cells ?cand = taken @ (x # xs) \<and> cand_r ?cand = seg_r first \<and>
        cand_c ?cand = seg_c first \<and>
        cand_dir ?cand = (if seg_r first = seg_r (last (x # xs)) then H else V)"
      using True by simp
    ultimately show ?thesis by (rule bexI [rotated])
  next
    case False
    from Cons.IH [where node = node1 and word = "word @ [seg_ch x]" and taken = "taken @ [x]"
        and out = ?out, OF False w1 Cons.prems(3)]
    obtain cand where
      c: "cand \<in> set (scanFrom base first node1 (word @ [seg_ch x]) (taken @ [x]) (xs @ rest) ?out)"
        "cand_word cand = (word @ [seg_ch x]) @ map seg_ch xs"
        "cand_cells cand = (taken @ [x]) @ xs" "cand_r cand = seg_r first"
        "cand_c cand = seg_c first"
        "cand_dir cand = (if seg_r first = seg_r (last xs) then H else V)"
      by (elim bexE conjE)
    from c(1) have "cand \<in> set (scanFrom base first node word taken ((x # xs) @ rest) out)"
      unfolding unfold .
    moreover from c False have "cand_word cand = word @ map seg_ch (x # xs) \<and>
        cand_cells cand = taken @ (x # xs) \<and> cand_r cand = seg_r first \<and>
        cand_c cand = seg_c first \<and>
        cand_dir cand = (if seg_r first = seg_r (last (x # xs)) then H else V)"
      by simp
    ultimately show ?thesis by (rule bexI [rotated])
  qed
qed

lemma scanSegment_finds:
  assumes "mid \<noteq> []" "spells tr (map seg_ch mid)"
  shows "\<exists>cand \<in> set (scanSegmentWithTrie base (pre @ mid @ post) tr out).
      cand_word cand = map seg_ch mid \<and> cand_cells cand = mid \<and>
      cand_r cand = seg_r (hd mid) \<and> cand_c cand = seg_c (hd mid) \<and>
      cand_dir cand = (if seg_r (hd mid) = seg_r (last mid) then H else V)"
proof (induction pre arbitrary: out)
  case Nil
  from assms(1) obtain x xs where mid: "mid = x # xs" by (cases mid) auto
  from assms(2) obtain n' where w: "walk tr (map seg_ch mid) = Some n'" and t: "node_t n'"
    by (auto simp: spells_def split: option.splits)
  from scanFrom_finds [OF assms(1) w t, of base x "[]" "[]" post out]
  obtain cand where
    c: "cand \<in> set (scanFrom base x tr [] [] (mid @ post) out)"
      "cand_word cand = [] @ map seg_ch mid" "cand_cells cand = [] @ mid"
      "cand_r cand = seg_r x" "cand_c cand = seg_c x"
      "cand_dir cand = (if seg_r x = seg_r (last mid) then H else V)"
    by (elim bexE conjE)
  have sub: "set (scanFrom base x tr [] [] (mid @ post) out) \<subseteq>
      set (scanSegmentWithTrie base (xs @ post) tr (scanFrom base x tr [] [] (mid @ post) out))"
    by (rule scanSegment_mono)
  have eq: "scanSegmentWithTrie base ([] @ mid @ post) tr out =
      scanSegmentWithTrie base (xs @ post) tr (scanFrom base x tr [] [] (mid @ post) out)"
    by (simp add: mid del: scanFrom.simps)
  from sub c(1) have "cand \<in> set (scanSegmentWithTrie base ([] @ mid @ post) tr out)"
    unfolding eq by (rule subsetD)
  moreover from c mid have "cand_word cand = map seg_ch mid \<and> cand_cells cand = mid \<and>
      cand_r cand = seg_r (hd mid) \<and> cand_c cand = seg_c (hd mid) \<and>
      cand_dir cand = (if seg_r (hd mid) = seg_r (last mid) then H else V)"
    by simp
  ultimately show ?case by (rule bexI [rotated])
next
  case (Cons y pre)
  show ?case
    using Cons.IH [of "scanFrom base y tr [] [] (y # pre @ mid @ post) out"]
    by (simp del: scanFrom.simps)
qed

lemma segLoop_row:
  assumes r: "0 \<le> r" "r < int (rows (grid w))"
  shows "0 \<le> c \<Longrightarrow> c \<le> int (cols (grid w)) \<Longrightarrow>
    \<exists>c'. segLoop w inc 0 1 r c seg = (seg @ map (segCellAt w r) [c..c' - 1], r, c') \<and>
         c \<le> c' \<and> c' \<le> int (cols (grid w)) \<and>
         (\<forall>j. c \<le> j \<and> j < c' \<longrightarrow> inc (getCellIndex w r j)) \<and>
         (c' < int (cols (grid w)) \<longrightarrow> \<not> inc (getCellIndex w r c'))"
proof (induction "nat (int (cols (grid w)) - c)" arbitrary: c seg)
  case 0
  then have c: "c = int (cols (grid w))" by simp
  have "\<not> inBounds w r c" using c by (simp add: inBounds_def)
  then have "segLoop w inc 0 1 r c seg = (seg, r, c)"
    by (subst segLoop.simps) simp
  then show ?case using c by (intro exI [of _ c]) auto
next
  case (Suc k)
  then have lt: "c < int (cols (grid w))" by linarith
  show ?case
  proof (cases "inc (getCellIndex w r c)")
    case False
    then have "segLoop w inc 0 1 r c seg = (seg, r, c)"
      by (subst segLoop.simps) simp
    with False Suc.prems show ?thesis by (intro exI [of _ c]) auto
  next
    case True
    from r lt Suc.prems have "inBounds w r c" by (simp add: inBounds_def)
    with True have step: "segLoop w inc 0 1 r c seg =
        segLoop w inc 0 1 r (c + 1) (seg @ [segCellAt w r c])"
      by (subst segLoop.simps) simp
    from Suc.hyps(2) have k: "k = nat (int (cols (grid w)) - (c + 1))" by linarith
    from Suc.prems lt have "0 \<le> c + 1" "c + 1 \<le> int (cols (grid w))" by simp_all
    from Suc.hyps(1) [OF k this, of "seg @ [segCellAt w r c]"] obtain c' where
      c': "segLoop w inc 0 1 r (c + 1) (seg @ [segCellAt w r c]) =
            ((seg @ [segCellAt w r c]) @ map (segCellAt w r) [c + 1..c' - 1], r, c')"
        "c + 1 \<le> c'" "c' \<le> int (cols (grid w))"
        "\<forall>j. c + 1 \<le> j \<and> j < c' \<longrightarrow> inc (getCellIndex w r j)"
        "c' < int (cols (grid w)) \<longrightarrow> \<not> inc (getCellIndex w r c')"
      by (elim exE conjE)
    from c'(2) have "[c..c' - 1] = c # [c + 1..c' - 1]" by (simp add: upto_rec1)
    then have seg: "(seg @ [segCellAt w r c]) @ map (segCellAt w r) [c + 1..c' - 1] =
        seg @ map (segCellAt w r) [c..c' - 1]" by simp
    have inc': "\<forall>j. c \<le> j \<and> j < c' \<longrightarrow> inc (getCellIndex w r j)"
    proof (intro allI impI)
      fix j assume "c \<le> j \<and> j < c'"
      then have "j = c \<or> (c + 1 \<le> j \<and> j < c')" by linarith
      with True c'(4) show "inc (getCellIndex w r j)" by auto
    qed
    from c'(1,2,3,5) inc' show ?thesis
      unfolding step seg by (intro exI [of _ c']) simp
  qed
qed

lemma lineLoop_mono: "set out \<subseteq> set (lineLoop base w inc dr dc r c out)"
proof (induction base w inc dr dc r c out rule: lineLoop.induct)
  case (1 base w inc dr dc r c out)
  show ?case
  proof (cases "(dr \<noteq> 0 \<or> dc \<noteq> 0) \<and> inBounds w r c")
    case False
    have "lineLoop base w inc dr dc r c out = out"
      by (subst lineLoop.simps) (simp only: False if_False simp_thms)
    then show ?thesis by simp
  next
    case True
    obtain seg r' c' where res: "segLoop w inc dr dc r c [] = (seg, r', c')"
      by (cases "segLoop w inc dr dc r c []") auto
    let ?out = "if length seg \<noteq> 0 then scanSegmentWithTrie base seg (trie w) out else out"
    have "set out \<subseteq> set ?out" using scanSegment_mono [of out base seg "trie w"] by simp
    also have "set ?out \<subseteq> set (lineLoop base w inc dr dc (r' + dr) (c' + dc) ?out)"
      using "1.IH" [OF True res [symmetric] refl] .
    also have "lineLoop base w inc dr dc (r' + dr) (c' + dc) ?out =
        lineLoop base w inc dr dc r c out"
      by (subst (2) lineLoop.simps) (simp only: True if_True res prod.case simp_thms)
    finally show ?thesis .
  qed
qed

lemma lineLoop_row_finds:
  assumes r: "0 \<le> r" "r < int (rows (grid w))"
    and fit: "a + int n \<le> int (cols (grid w))" and n: "0 < n"
    and vis: "\<forall>j. a \<le> j \<and> j < a + int n \<longrightarrow> inc (getCellIndex w r j)"
    and word: "spells (trie w) (map seg_ch (map (segCellAt w r) [a..a + int n - 1]))"
  shows "0 \<le> c \<Longrightarrow> c \<le> a \<Longrightarrow>
    \<exists>cand \<in> set (lineLoop base w inc 0 1 r c out).
       cand_word cand = map seg_ch (map (segCellAt w r) [a..a + int n - 1]) \<and>
       cand_cells cand = map (segCellAt w r) [a..a + int n - 1] \<and>
       cand_r cand = r \<and> cand_c cand = a \<and> cand_dir cand = H"
proof (induction "nat (int (cols (grid w)) - c)" arbitrary: c out rule: less_induct)
  case less
  let ?mid = "map (segCellAt w r) [a..a + int n - 1]"
  from less.prems fit n have lt: "c < int (cols (grid w))" by linarith
  with r less.prems have ib: "inBounds w r c" by (simp add: inBounds_def)
  from segLoop_row [OF r less.prems(1), of inc "[]"] lt obtain c' where
    c': "segLoop w inc 0 1 r c [] = (map (segCellAt w r) [c..c' - 1], r, c')"
      "c \<le> c'" "c' \<le> int (cols (grid w))"
      "\<forall>j. c \<le> j \<and> j < c' \<longrightarrow> inc (getCellIndex w r j)"
      "c' < int (cols (grid w)) \<longrightarrow> \<not> inc (getCellIndex w r c')"
    by auto
  let ?seg = "map (segCellAt w r) [c..c' - 1]"
  let ?out = "if length ?seg \<noteq> 0 then scanSegmentWithTrie base ?seg (trie w) out else out"
  have step: "lineLoop base w inc 0 1 r c out = lineLoop base w inc 0 1 (r + 0) (c' + 1) ?out"
    by (subst lineLoop.simps) (simp only: ib c'(1) prod.case if_True simp_thms zero_neq_one one_neq_zero)
  show ?case
  proof (cases "a < c'")
    case True
    have end_le: "a + int n \<le> c'"
    proof (rule ccontr)
      assume "\<not> a + int n \<le> c'"
      with True fit vis c'(5) show False by auto
    qed
    have "[c..c' - 1] = [c..a - 1] @ [a..c' - 1]"
      using less.prems(2) True by (intro upto_split1) auto
    also have "[a..c' - 1] = [a..a + int n - 1] @ [a + int n..c' - 1]"
      using end_le n upto_split2 [of a "a + int n - 1" "c' - 1"] by simp
    finally have seg: "?seg = map (segCellAt w r) [c..a - 1] @ ?mid @
        map (segCellAt w r) [a + int n..c' - 1]" by simp
    from n have ne: "?mid \<noteq> []" by simp
    from n have hd_mid: "hd ?mid = segCellAt w r a"
      by (simp add: upto_rec1 [of a "a + int n - 1"])
    from n have last_mid: "last ?mid = segCellAt w r (a + int n - 1)"
      by (simp add: upto_rec2 [of a "a + int n - 1"])
    from scanSegment_finds [OF ne word, of base "map (segCellAt w r) [c..a - 1]"
        "map (segCellAt w r) [a + int n..c' - 1]" out]
    obtain cand where cand: "cand \<in> set (scanSegmentWithTrie base ?seg (trie w) out)"
      "cand_word cand = map seg_ch ?mid" "cand_cells cand = ?mid"
      "cand_r cand = seg_r (hd ?mid)" "cand_c cand = seg_c (hd ?mid)"
      "cand_dir cand = (if seg_r (hd ?mid) = seg_r (last ?mid) then H else V)"
      unfolding seg by blast
    from seg ne have "length ?seg \<noteq> 0" by simp
    then have "?out = scanSegmentWithTrie base ?seg (trie w) out" by simp
    with cand(1) lineLoop_mono [of ?out base w inc 0 1 "r + 0" "c' + 1"]
    have "cand \<in> set (lineLoop base w inc 0 1 r c out)" unfolding step by auto
    moreover from cand(4,5,6) have "cand_r cand = r" "cand_c cand = a" "cand_dir cand = H"
      unfolding hd_mid last_mid by (simp_all add: segCellAt_def)
    ultimately show ?thesis using cand(2,3) by blast
  next
    case False
    with fit n have "c' < int (cols (grid w))" by linarith
    with c'(5) have "\<not> inc (getCellIndex w r c')" by simp
    with vis n have "c' \<noteq> a" by auto
    with False have le: "c' + 1 \<le> a" by simp
    from c'(2) less.prems(1) have pos: "0 \<le> c' + 1" by simp
    from c'(2) lt have dec: "nat (int (cols (grid w)) - (c' + 1)) < nat (int (cols (grid w)) - c)"
      by linarith
    from less.hyps [OF dec pos le, of ?out] show ?thesis unfolding step by simp
  qed
qed

lemma lineStart_row: "lineStart w 0 1 r 0 = (r, 0)"
  by (subst lineStart.simps) (simp add: inBounds_def)

lemma scanLine_row: "scanLine base w inc r 0 0 1 out = Some (lineLoop base w inc 0 1 r 0 out)"
  by (simp add: scanLine_def lineStart_row)

lemma scanRows_row: "\<exists>out'. scanRows base w inc rs out = Some out' \<and> set out \<subseteq> set out'"
proof (induction rs arbitrary: out)
  case Nil
  show ?case by simp
next
  case (Cons rI rs)
  from Cons [of "lineLoop base w inc 0 1 (int rI) 0 out"] obtain out' where
    "scanRows base w inc rs (lineLoop base w inc 0 1 (int rI) 0 out) = Some out'"
    "set (lineLoop base w inc 0 1 (int rI) 0 out) \<subseteq> set out'" by blast
  with lineLoop_mono [of out base w inc 0 1 "int rI" 0] show ?case
    by (simp add: scanLine_row)
qed

lemma scanRows_finds:
  assumes mem: "rI \<in> set rs"
    and found: "\<And>out. \<exists>cand \<in> set (lineLoop base w inc 0 1 (int rI) 0 out). P cand"
  shows "\<exists>out'. scanRows base w inc rs out = Some out' \<and> (\<exists>cand \<in> set out'. P cand)"
  using mem
proof (induction rs arbitrary: out)
  case Nil
  then show ?case by simp
next
  case (Cons r' rs)
  let ?out = "lineLoop base w inc 0 1 (int r') 0 out"
  have step: "scanRows base w inc (r' # rs) out = scanRows base w inc rs ?out"
    by (simp add: scanLine_row)
  show ?case
  proof (cases "rI = r'")
    case True
    from found [of out] True obtain cand where cand: "cand \<in> set ?out" "P cand" by blast
    from scanRows_row [of base w inc rs ?out] obtain out' where
      "scanRows base w inc rs ?out = Some out'" "set ?out \<subseteq> set out'" by blast
    with cand show ?thesis unfolding step by blast
  next
    case False
    with Cons.prems have "rI \<in> set rs" by simp
    from Cons.IH [OF this, of ?out] show ?thesis unfolding step .
  qed
qed

lemma upto_nat_run: "[int a..int a + int n - 1] = map (\<lambda>i. int (a + i)) [0..<n]"
proof (induction n)
  case 0
  show ?case by simp
next
  case (Suc n)
  have "[int a..int a + int (Suc n) - 1] = [int a..int a + int n - 1] @ [int a + int n]"
    using upto_rec2 [of "int a" "int a + int n"] by simp
  with Suc show ?case by simp
qed

text \<open>
  Conversely, a candidate that the scan pushes comes from a piece of a segment that spells a
  word, and the segments of a row are runs of included cells.
\<close>

lemma upto_int_run: "[c..c + int n - 1] = map (\<lambda>i. c + int i) [0..<n]"
proof (induction n)
  case 0
  show ?case by simp
next
  case (Suc n)
  have "[c..c + int (Suc n) - 1] = [c..c + int n - 1] @ [c + int n]"
    using upto_rec2 [of c "c + int n"] by simp
  with Suc show ?case by simp
qed

lemma upto_segment:
  assumes le: "c \<le> d + 1" and eq: "map f [c..d] = pre @ mid @ post"
  shows "mid = map f [c + int (length pre)..c + int (length pre) + int (length mid) - 1] \<and>
     c + int (length pre) + int (length mid) \<le> d + 1"
proof -
  define N where "N = nat (d + 1 - c)"
  from le have d: "d = c + int N - 1" by (simp add: N_def)
  from eq have run: "map (\<lambda>i. f (c + int i)) [0..<N] = pre @ mid @ post"
    unfolding d upto_int_run by (simp add: o_def)
  then have "length (map (\<lambda>i. f (c + int i)) [0..<N]) = length (pre @ mid @ post)" by (rule arg_cong)
  then have len: "N = length pre + length mid + length post" by simp
  from run have "take (length mid) (drop (length pre) (map (\<lambda>i. f (c + int i)) [0..<N])) =
      take (length mid) (drop (length pre) (pre @ mid @ post))" by (rule arg_cong)
  then have "mid = map (\<lambda>i. f (c + int i)) [length pre..<length pre + length mid]"
    using len by (simp add: drop_map take_map)
  also have "[length pre..<length pre + length mid] = map (\<lambda>i. i + length pre) [0..<length mid]"
    by (simp add: map_add_upt add.commute)
  also have "map (\<lambda>i. f (c + int i)) (map (\<lambda>i. i + length pre) [0..<length mid]) =
      map f (map (\<lambda>i. c + int (length pre) + int i) [0..<length mid])"
    by (simp add: o_def algebra_simps)
  finally have "mid = map f [c + int (length pre)..c + int (length pre) + int (length mid) - 1]"
    unfolding upto_int_run [symmetric] .
  moreover from len d have "c + int (length pre) + int (length mid) \<le> d + 1" by simp
  ultimately show ?thesis ..
qed

lemma scanFrom_sound:
  assumes "cand \<in> set (scanFrom base first node word taken xs out)"
  shows "cand \<in> set out \<or>
    (\<exists>ys zs n'. xs = ys @ zs \<and> ys \<noteq> [] \<and> walk node (map seg_ch ys) = Some n' \<and> node_t n' \<and>
       cand_word cand = word @ map seg_ch ys \<and> cand_cells cand = taken @ ys \<and>
       cand_r cand = seg_r first \<and> cand_c cand = seg_c first \<and>
       cand_dir cand = (if seg_r first = seg_r (last ys) then H else V))"
  using assms
proof (induction xs arbitrary: node word taken out)
  case Nil
  then show ?case by simp
next
  case (Cons sc rest)
  show ?case
  proof (cases "node_c node (seg_ch sc)")
    case None
    with Cons.prems show ?thesis by simp
  next
    case (Some node')
    let ?c0 = "\<lparr>cand_oid = base + length out, cand_word = word @ [seg_ch sc],
                cand_r = seg_r first, cand_c = seg_c first,
                cand_dir = (if seg_r first = seg_r sc then H else V),
                cand_cells = taken @ [sc]\<rparr>"
    let ?out = "if node_t node' then out @ [?c0] else out"
    from Cons.prems Some have
      "cand \<in> set (scanFrom base first node' (word @ [seg_ch sc]) (taken @ [sc]) rest ?out)"
      by simp
    from Cons.IH [OF this] consider
      (old) "cand \<in> set ?out"
      | (new) ys zs n' where "rest = ys @ zs" "ys \<noteq> []"
          "walk node' (map seg_ch ys) = Some n'" "node_t n'"
          "cand_word cand = (word @ [seg_ch sc]) @ map seg_ch ys"
          "cand_cells cand = (taken @ [sc]) @ ys"
          "cand_r cand = seg_r first" "cand_c cand = seg_c first"
          "cand_dir cand = (if seg_r first = seg_r (last ys) then H else V)"
      by blast
    then show ?thesis
    proof cases
      case old
      show ?thesis
      proof (cases "cand \<in> set out")
        case True
        then show ?thesis ..
      next
        case False
        with old have t: "node_t node'" and c0: "cand = ?c0" by (auto split: if_splits)
        have "sc # rest = [sc] @ rest \<and> [sc] \<noteq> [] \<and> walk node (map seg_ch [sc]) = Some node' \<and>
            node_t node' \<and> cand_word cand = word @ map seg_ch [sc] \<and>
            cand_cells cand = taken @ [sc] \<and> cand_r cand = seg_r first \<and>
            cand_c cand = seg_c first \<and>
            cand_dir cand = (if seg_r first = seg_r (last [sc]) then H else V)"
          using Some t by (simp add: c0)
        then show ?thesis by blast
      qed
    next
      case new
      have "sc # rest = (sc # ys) @ zs \<and> sc # ys \<noteq> [] \<and>
          walk node (map seg_ch (sc # ys)) = Some n' \<and> node_t n' \<and>
          cand_word cand = word @ map seg_ch (sc # ys) \<and>
          cand_cells cand = taken @ (sc # ys) \<and> cand_r cand = seg_r first \<and>
          cand_c cand = seg_c first \<and>
          cand_dir cand = (if seg_r first = seg_r (last (sc # ys)) then H else V)"
        using new Some by simp
      then show ?thesis by blast
    qed
  qed
qed

lemma scanSegment_sound:
  assumes "cand \<in> set (scanSegmentWithTrie base seg tr out)"
  shows "cand \<in> set out \<or>
    (\<exists>pre mid post. seg = pre @ mid @ post \<and> mid \<noteq> [] \<and> spells tr (map seg_ch mid) \<and>
       cand_word cand = map seg_ch mid \<and> cand_cells cand = mid \<and>
       cand_r cand = seg_r (hd mid) \<and> cand_c cand = seg_c (hd mid) \<and>
       cand_dir cand = (if seg_r (hd mid) = seg_r (last mid) then H else V))"
  using assms
proof (induction seg arbitrary: out)
  case Nil
  then show ?case by simp
next
  case (Cons sc rest)
  from Cons.prems have
    "cand \<in> set (scanSegmentWithTrie base rest tr (scanFrom base sc tr [] [] (sc # rest) out))"
    by simp
  from Cons.IH [OF this] consider
    (here) "cand \<in> set (scanFrom base sc tr [] [] (sc # rest) out)"
    | (later) pre mid post where "rest = pre @ mid @ post" "mid \<noteq> []"
        "spells tr (map seg_ch mid)" "cand_word cand = map seg_ch mid" "cand_cells cand = mid"
        "cand_r cand = seg_r (hd mid)" "cand_c cand = seg_c (hd mid)"
        "cand_dir cand = (if seg_r (hd mid) = seg_r (last mid) then H else V)"
    by blast
  then show ?case
  proof cases
    case here
    from scanFrom_sound [OF here] consider
      (old) "cand \<in> set out"
      | (new) ys zs n' where "sc # rest = ys @ zs" "ys \<noteq> []"
          "walk tr (map seg_ch ys) = Some n'" "node_t n'"
          "cand_word cand = [] @ map seg_ch ys" "cand_cells cand = [] @ ys"
          "cand_r cand = seg_r sc" "cand_c cand = seg_c sc"
          "cand_dir cand = (if seg_r sc = seg_r (last ys) then H else V)"
      by blast
    then show ?thesis
    proof cases
      case old
      then show ?thesis ..
    next
      case new
      from new(1,2) have hd: "hd ys = sc" by (cases ys) simp_all
      have "sc # rest = [] @ ys @ zs \<and> ys \<noteq> [] \<and> spells tr (map seg_ch ys) \<and>
          cand_word cand = map seg_ch ys \<and> cand_cells cand = ys \<and>
          cand_r cand = seg_r (hd ys) \<and> cand_c cand = seg_c (hd ys) \<and>
          cand_dir cand = (if seg_r (hd ys) = seg_r (last ys) then H else V)"
        using new by (simp add: hd spells_def)
      then show ?thesis by blast
    qed
  next
    case later
    have "sc # rest = (sc # pre) @ mid @ post" using later(1) by simp
    with later(2-) show ?thesis by blast
  qed
qed

lemma lineLoop_row_sound:
  "0 \<le> c \<Longrightarrow> cand \<in> set (lineLoop base w inc 0 1 r c out) \<Longrightarrow>
   cand \<in> set out \<or>
   (0 \<le> r \<and> r < int (rows (grid w)) \<and>
    (\<exists>a n. 0 \<le> a \<and> 0 < n \<and> a + int n \<le> int (cols (grid w)) \<and>
       (\<forall>j. a \<le> j \<and> j < a + int n \<longrightarrow> inc (getCellIndex w r j)) \<and>
       spells (trie w) (map seg_ch (map (segCellAt w r) [a..a + int n - 1])) \<and>
       cand_word cand = map seg_ch (map (segCellAt w r) [a..a + int n - 1]) \<and>
       cand_cells cand = map (segCellAt w r) [a..a + int n - 1] \<and>
       cand_r cand = r \<and> cand_c cand = a \<and> cand_dir cand = H))"
proof (induction "nat (int (cols (grid w)) - c)" arbitrary: c out rule: less_induct)
  case less
  show ?case
  proof (cases "inBounds w r c")
    case False
    have "lineLoop base w inc 0 1 r c out = out"
      by (subst lineLoop.simps) (simp only: False if_False simp_thms)
    with less.prems(2) show ?thesis by simp
  next
    case True
    then have r: "0 \<le> r" "r < int (rows (grid w))" and lt: "c < int (cols (grid w))"
      by (simp_all add: inBounds_def)
    from segLoop_row [OF r less.prems(1), of inc "[]"] lt obtain c' where
      c': "segLoop w inc 0 1 r c [] = (map (segCellAt w r) [c..c' - 1], r, c')" "c \<le> c'"
        "c' \<le> int (cols (grid w))"
        "\<forall>j. c \<le> j \<and> j < c' \<longrightarrow> inc (getCellIndex w r j)"
      by auto
    let ?seg = "map (segCellAt w r) [c..c' - 1]"
    let ?out = "if length ?seg \<noteq> 0 then scanSegmentWithTrie base ?seg (trie w) out else out"
    have step: "lineLoop base w inc 0 1 r c out = lineLoop base w inc 0 1 (r + 0) (c' + 1) ?out"
      by (subst lineLoop.simps)
         (simp only: True c'(1) prod.case if_True simp_thms zero_neq_one one_neq_zero)
    from c'(2) less.prems(1) have pos: "0 \<le> c' + 1" by simp
    from c'(2) lt have dec: "nat (int (cols (grid w)) - (c' + 1)) < nat (int (cols (grid w)) - c)"
      by linarith
    from less.prems(2) have "cand \<in> set (lineLoop base w inc 0 1 r (c' + 1) ?out)"
      unfolding step by simp
    from less.hyps [OF dec pos this] show ?thesis
    proof
      assume "cand \<in> set ?out"
      then have "cand \<in> set out \<or> cand \<in> set (scanSegmentWithTrie base ?seg (trie w) out)"
        by (simp split: if_splits)
      then show ?thesis
      proof
        assume "cand \<in> set out"
        then show ?thesis ..
      next
        assume "cand \<in> set (scanSegmentWithTrie base ?seg (trie w) out)"
        from scanSegment_sound [OF this] show ?thesis
        proof
          assume "cand \<in> set out"
          then show ?thesis ..
        next
          assume "\<exists>pre mid post. ?seg = pre @ mid @ post \<and> mid \<noteq> [] \<and>
              spells (trie w) (map seg_ch mid) \<and>
              cand_word cand = map seg_ch mid \<and> cand_cells cand = mid \<and>
              cand_r cand = seg_r (hd mid) \<and> cand_c cand = seg_c (hd mid) \<and>
              cand_dir cand = (if seg_r (hd mid) = seg_r (last mid) then H else V)"
          then obtain pre mid post where
            seg: "?seg = pre @ mid @ post" and ne: "mid \<noteq> []"
            and sp: "spells (trie w) (map seg_ch mid)"
            and cw: "cand_word cand = map seg_ch mid" and cc: "cand_cells cand = mid"
            and cr: "cand_r cand = seg_r (hd mid)" and ccol: "cand_c cand = seg_c (hd mid)"
            and cd: "cand_dir cand = (if seg_r (hd mid) = seg_r (last mid) then H else V)"
            by blast
          define a where "a = c + int (length pre)"
          define n where "n = length mid"
          from c'(2) have "c \<le> c' - 1 + 1" by simp
          from upto_segment [OF this seg] have
            mid: "mid = map (segCellAt w r) [a..a + int n - 1]" and fit: "a + int n \<le> c'"
            by (simp_all add: a_def n_def)
          from ne have n: "0 < n" by (simp add: n_def)
          from less.prems(1) have a0: "0 \<le> a" and ca: "c \<le> a" by (simp_all add: a_def)
          from n have hd_mid: "hd mid = segCellAt w r a"
            unfolding mid by (simp add: upto_rec1 [of a "a + int n - 1"])
          from n have last_mid: "last mid = segCellAt w r (a + int n - 1)"
            unfolding mid by (simp add: upto_rec2 [of a "a + int n - 1"])
          from fit c'(3) have fit': "a + int n \<le> int (cols (grid w))" by simp
          from c'(4) ca fit have vis: "\<forall>j. a \<le> j \<and> j < a + int n \<longrightarrow> inc (getCellIndex w r j)"
            by auto
          from cr ccol cd have "cand_r cand = r" "cand_c cand = a" "cand_dir cand = H"
            unfolding hd_mid last_mid by (simp_all add: segCellAt_def)
          with a0 n fit' vis sp cw cc have "0 \<le> a \<and> 0 < n \<and> a + int n \<le> int (cols (grid w)) \<and>
             (\<forall>j. a \<le> j \<and> j < a + int n \<longrightarrow> inc (getCellIndex w r j)) \<and>
             spells (trie w) (map seg_ch (map (segCellAt w r) [a..a + int n - 1])) \<and>
             cand_word cand = map seg_ch (map (segCellAt w r) [a..a + int n - 1]) \<and>
             cand_cells cand = map (segCellAt w r) [a..a + int n - 1] \<and>
             cand_r cand = r \<and> cand_c cand = a \<and> cand_dir cand = H"
            unfolding mid [symmetric] by simp
          with r show ?thesis by blast
        qed
      qed
    next
      assume "0 \<le> r \<and> r < int (rows (grid w)) \<and>
        (\<exists>a n. 0 \<le> a \<and> 0 < n \<and> a + int n \<le> int (cols (grid w)) \<and>
           (\<forall>j. a \<le> j \<and> j < a + int n \<longrightarrow> inc (getCellIndex w r j)) \<and>
           spells (trie w) (map seg_ch (map (segCellAt w r) [a..a + int n - 1])) \<and>
           cand_word cand = map seg_ch (map (segCellAt w r) [a..a + int n - 1]) \<and>
           cand_cells cand = map (segCellAt w r) [a..a + int n - 1] \<and>
           cand_r cand = r \<and> cand_c cand = a \<and> cand_dir cand = H)"
      then show ?thesis ..
    qed
  qed
qed

lemma scanRows_sound:
  assumes step: "\<And>rI out cand. cand \<in> set (lineLoop base w inc 0 1 (int rI) 0 out) \<Longrightarrow>
      cand \<in> set out \<or> Q cand"
  shows "\<forall>cand \<in> set out. Q cand \<Longrightarrow> scanRows base w inc rs out = Some out' \<Longrightarrow>
     \<forall>cand \<in> set out'. Q cand"
proof (induction rs arbitrary: out)
  case Nil
  then show ?case by simp
next
  case (Cons rI rs)
  let ?out = "lineLoop base w inc 0 1 (int rI) 0 out"
  have "\<forall>cand \<in> set ?out. Q cand"
  proof
    fix cand assume "cand \<in> set ?out"
    from step [OF this] Cons.prems(1) show "Q cand" by auto
  qed
  from Cons.IH [OF this] Cons.prems(2) show ?case by (simp add: scanLine_row)
qed

text \<open>A row run in the coordinates of the scan, and in those of the grid.\<close>

lemma run_cells:
  "map (segCellAt w (int r)) [int a..int a + int n - 1] =
     map (\<lambda>i. segCellAt w (int r) (int (a + i))) [0..<n]"
  unfolding upto_nat_run by (simp add: o_def)

lemma run_chars:
  "map seg_ch (map (segCellAt w (int r)) [int a..int a + int n - 1]) = rowString w r a n"
proof -
  have "nat (getCellIndex w (int r) (int a + int i)) = r * cols (grid w) + a + i" for i
    by (simp add: getCellIndex_def nat_add_distrib nat_mult_distrib)
  then show ?thesis unfolding upto_nat_run by (simp add: segCellAt_def rowString_def o_def)
qed

lemma run_included:
  assumes r: "r < rows (grid w)" and fit: "a + n \<le> cols (grid w)"
  shows "(\<forall>j. int a \<le> j \<and> j < int a + int n \<longrightarrow> includeAll p w (getCellIndex w (int r) j)) \<longleftrightarrow>
     list_all (\<lambda>i. inCircle p w (cells w ! (r * cols (grid w) + a + i))) [0..<n]"
proof -
  have cell: "includeAll p w (getCellIndex w (int r) (int (a + i))) =
      inCircle p w (cells w ! (r * cols (grid w) + a + i))" if "i < n" for i
  proof -
    from that fit have "a + i < cols (grid w)" by simp
    from includeAll_cell [OF r this, of p] show ?thesis by (simp add: add.assoc)
  qed
  show ?thesis
  proof
    assume all: "\<forall>j. int a \<le> j \<and> j < int a + int n \<longrightarrow> includeAll p w (getCellIndex w (int r) j)"
    have "inCircle p w (cells w ! (r * cols (grid w) + a + i))" if "i < n" for i
    proof -
      from that have "int a \<le> int (a + i) \<and> int (a + i) < int a + int n" by simp
      with all have "includeAll p w (getCellIndex w (int r) (int (a + i)))" by blast
      with cell [OF that] show ?thesis by simp
    qed
    then show "list_all (\<lambda>i. inCircle p w (cells w ! (r * cols (grid w) + a + i))) [0..<n]"
      by (simp add: list_all_iff)
  next
    assume run: "list_all (\<lambda>i. inCircle p w (cells w ! (r * cols (grid w) + a + i))) [0..<n]"
    show "\<forall>j. int a \<le> j \<and> j < int a + int n \<longrightarrow> includeAll p w (getCellIndex w (int r) j)"
    proof (intro allI impI)
      fix j assume j: "int a \<le> j \<and> j < int a + int n"
      define i where "i = nat (j - int a)"
      with j have ji: "j = int (a + i)" and i: "i < n" by auto
      from run i have "inCircle p w (cells w ! (r * cols (grid w) + a + i))"
        by (simp add: list_all_iff)
      with cell [OF i] show "includeAll p w (getCellIndex w (int r) j)" unfolding ji by simp
    qed
  qed
qed

lemma row_run_found:
  assumes wf: "rows (grid w) * cols (grid w) \<le> length (cells w)"
    and run: "rowRun p w r a n" and word: "spells (trie w) (rowString w r a n)"
  shows "\<exists>cands. scanCandidates p w = Some cands \<and> (\<exists>cand \<in> set cands. runCandidate w cand r a n)"
proof -
  let ?inc = "includeAll p w"
  let ?mid = "map (segCellAt w (int r)) [int a..int a + int n - 1]"
  from run have r: "r < rows (grid w)" and n: "0 < n" and fit: "a + n \<le> cols (grid w)"
    and vis: "list_all (\<lambda>i. inCircle p w (cells w ! (r * cols (grid w) + a + i))) [0..<n]"
    by (simp_all add: rowRun_def)
  from vis have vis': "\<forall>j. int a \<le> j \<and> j < int a + int n \<longrightarrow> ?inc (getCellIndex w (int r) j)"
    by (simp only: run_included [OF r fit])
  from fit have fit': "int a + int n \<le> int (cols (grid w))" by linarith
  from r have r': "0 \<le> int r" "int r < int (rows (grid w))" by simp_all
  from word have word': "spells (trie w) (map seg_ch ?mid)" unfolding run_chars .
  let ?P = "\<lambda>cand. cand_word cand = map seg_ch ?mid \<and> cand_cells cand = ?mid \<and>
       cand_r cand = int r \<and> cand_c cand = int a \<and> cand_dir cand = H"
  have found: "\<exists>cand \<in> set (lineLoop (nextOid w) w ?inc 0 1 (int r) 0 out). ?P cand" for out
    by (rule lineLoop_row_finds [OF r' fit' n vis' word']) simp_all
  from r have mem: "r \<in> set [0..<rows (grid w)]" by simp
  from scanRows_finds [of r "[0..<rows (grid w)]" "nextOid w" w ?inc ?P "[]", OF mem found]
  obtain out' cand where
    out': "scanRows (nextOid w) w ?inc [0..<rows (grid w)] [] = Some out'" "cand \<in> set out'"
    and P: "?P cand"
    by blast
  from P have p1: "cand_word cand = map seg_ch ?mid" and p2: "cand_cells cand = ?mid"
    and p3: "cand_r cand = int r" "cand_c cand = int a" "cand_dir cand = H" by simp_all
  have "runCandidate w cand r a n"
    unfolding runCandidate_def using p1 [unfolded run_chars] p2 [unfolded run_cells] p3
    by (intro conjI)
  with out' wf show ?thesis by (auto simp: scanCandidates_def)
qed

lemma candidates_row_runs:
  assumes wf: "rows (grid w) * cols (grid w) \<le> length (cells w)"
    and scan: "scanCandidates p w = Some cands" and mem: "cand \<in> set cands"
  shows "\<exists>r a n. rowRun p w r a n \<and> spells (trie w) (rowString w r a n) \<and>
     runCandidate w cand r a n"
proof -
  let ?inc = "includeAll p w"
  let ?Q = "\<lambda>cand. \<exists>r a n. rowRun p w r a n \<and> spells (trie w) (rowString w r a n) \<and>
     runCandidate w cand r a n"
  have step: "cand \<in> set out \<or> ?Q cand"
    if "cand \<in> set (lineLoop (nextOid w) w ?inc 0 1 (int rI) 0 out)" for rI out cand
  proof -
    from lineLoop_row_sound [OF _ that] consider
      (old) "cand \<in> set out"
      | (new) a n where "int rI < int (rows (grid w))" "0 \<le> a" "0 < n"
          "a + int n \<le> int (cols (grid w))"
          "\<forall>j. a \<le> j \<and> j < a + int n \<longrightarrow> ?inc (getCellIndex w (int rI) j)"
          "spells (trie w) (map seg_ch (map (segCellAt w (int rI)) [a..a + int n - 1]))"
          "cand_word cand = map seg_ch (map (segCellAt w (int rI)) [a..a + int n - 1])"
          "cand_cells cand = map (segCellAt w (int rI)) [a..a + int n - 1]"
          "cand_r cand = int rI" "cand_c cand = a" "cand_dir cand = H"
      by auto
    then show ?thesis
    proof cases
      case old
      then show ?thesis ..
    next
      case new
      define b where "b = nat a"
      from new(2) have a: "a = int b" by (simp add: b_def)
      from new(1) have r: "rI < rows (grid w)" by simp
      from new(4) have fit: "b + n \<le> cols (grid w)" unfolding a by linarith
      from new(5) have "list_all (\<lambda>i. inCircle p w (cells w ! (rI * cols (grid w) + b + i))) [0..<n]"
        unfolding a by (simp only: run_included [OF r fit])
      with r new(3) fit have run: "rowRun p w rI b n" by (simp add: rowRun_def)
      from new(6) have sp: "spells (trie w) (rowString w rI b n)" unfolding a run_chars .
      have "runCandidate w cand rI b n"
        unfolding runCandidate_def
        using new(7) [unfolded a run_chars] new(8) [unfolded a run_cells] new(9)
          new(10) [unfolded a] new(11)
        by (intro conjI)
      with run sp show ?thesis by blast
    qed
  qed
  from scan wf have "scanRows (nextOid w) w ?inc [0..<rows (grid w)] [] = Some cands"
    by (simp add: scanCandidates_def)
  from scanRows_sound [of "nextOid w" w ?inc ?Q "[]", OF step _ this] mem show ?thesis by simp
qed

text \<open>
  C1, as the code has it. \<^verbatim>\<open>wordUnderSpotlight\<close> calls \<^verbatim>\<open>scanLine\<close> once per row, with the direction
  \<open>(0, 1)\<close>, and never along a column. For every grid state (with a cell for every grid position),
  every pointer position and every preference record, the candidates that the scan records,
  before the filter by length and the choice, are the row runs that spell a word: a dictionary
  word spelled by a contiguous run of included cells inside one row is recorded, with its start,
  its cells and the horizontal orientation; and every candidate that is recorded is such a run
  of a row, horizontal. So a word that only a column of included cells spells is not recorded.
\<close>

theorem row_runs_recorded:
  assumes wf: "rows (grid w) * cols (grid w) \<le> length (cells w)"
  shows "\<exists>cands. scanCandidates p w = Some cands \<and>
      (\<forall>r a n. rowRun p w r a n \<and> spells (trie w) (rowString w r a n) \<longrightarrow>
         (\<exists>cand \<in> set cands. runCandidate w cand r a n)) \<and>
      (\<forall>cand \<in> set cands.
         \<exists>r a n. rowRun p w r a n \<and> spells (trie w) (rowString w r a n) \<and>
           runCandidate w cand r a n)"
proof -
  from scanCandidates_Some [OF wf, of p] obtain cands where
    scan: "scanCandidates p w = Some cands" ..
  have found: "\<exists>cand \<in> set cands. runCandidate w cand r a n"
    if "rowRun p w r a n \<and> spells (trie w) (rowString w r a n)" for r a n
  proof -
    from that have "rowRun p w r a n" "spells (trie w) (rowString w r a n)" by simp_all
    from row_run_found [OF wf this] show ?thesis unfolding scan by simp
  qed
  have runs: "\<exists>r a n. rowRun p w r a n \<and> spells (trie w) (rowString w r a n) \<and>
      runCandidate w cand r a n" if "cand \<in> set cands" for cand
    using wf scan that by (rule candidates_row_runs)
  from scan found runs show ?thesis by blast
qed

lemmas cross_eval = scan_eval widePrefs_def crossWorld_def colWorld_def

lemma cross_scan: "scanCandidates widePrefs crossWorld = Some [rowCandidate 3 2 ''cat'' 0 0]"
  by (simp add: scanCandidates_def cross_eval)

lemma col_scan: "scanCandidates widePrefs colWorld = Some []"
  by (simp add: scanCandidates_def cross_eval)

lemma cat_spells: "spells (buildTrie [''cat'']) ''cat''"
  by (simp add: spells_def buildTrie_def emptyNode_def)

text \<open>
  C1 as stated fails for columns: in \<open>colWorld\<close> the cells of column 0 in the rows 0, 1 and 2
  are all included and spell the dictionary word "cat" downwards, and the scan records no
  candidate at all.
\<close>

theorem column_run_not_recorded_counterexample:
  "includeAll widePrefs colWorld (getCellIndex colWorld 0 0) \<and>
   includeAll widePrefs colWorld (getCellIndex colWorld 1 0) \<and>
   includeAll widePrefs colWorld (getCellIndex colWorld 2 0) \<and>
   [cell_char (cells colWorld ! nat (getCellIndex colWorld 0 0)),
    cell_char (cells colWorld ! nat (getCellIndex colWorld 1 0)),
    cell_char (cells colWorld ! nat (getCellIndex colWorld 2 0))] = ''cat'' \<and>
   spells (trie colWorld) ''cat'' \<and>
   scanCandidates widePrefs colWorld = Some []"
proof -
  have inc: "includeAll widePrefs colWorld (getCellIndex colWorld 0 0)"
    "includeAll widePrefs colWorld (getCellIndex colWorld 1 0)"
    "includeAll widePrefs colWorld (getCellIndex colWorld 2 0)"
    by (simp_all add: cross_eval)
  have ch: "[cell_char (cells colWorld ! nat (getCellIndex colWorld 0 0)),
    cell_char (cells colWorld ! nat (getCellIndex colWorld 1 0)),
    cell_char (cells colWorld ! nat (getCellIndex colWorld 2 0))] = ''cat''"
    by (simp add: cross_eval)
  have tr: "trie colWorld = buildTrie [''cat'']" by (simp add: colWorld_def mkWorld_def)
  from inc ch cat_spells col_scan show ?thesis unfolding tr by (intro conjI)
qed

text \<open>
  In \<open>crossWorld\<close> the row "cat" is a run of included cells and is recorded, and the candidates
  are horizontal: the column that reads "cat" as well gives none.
\<close>

theorem row_runs_recorded_witness:
  "rowRun widePrefs crossWorld 0 0 3 \<and> spells (trie crossWorld) (rowString crossWorld 0 0 3) \<and>
   (\<exists>cands. scanCandidates widePrefs crossWorld = Some cands \<and>
      (\<exists>cand \<in> set cands. cand_word cand = ''cat'' \<and> runCandidate crossWorld cand 0 0 3) \<and>
      list_all (\<lambda>cand. cand_dir cand = H) cands)"
proof -
  have g: "rows (grid crossWorld) = 4" "cols (grid crossWorld) = 3"
    "length (cells crossWorld) = 12" "trie crossWorld = buildTrie [''cat'']"
    by (simp_all add: crossWorld_def mkWorld_def gridCells_def)
  have c: "cells crossWorld ! 0 = mkCell 5 5 CHR ''c''"
    "cells crossWorld ! Suc 0 = mkCell 15 5 CHR ''a''"
    "cells crossWorld ! Suc (Suc 0) = mkCell 25 5 CHR ''t''"
    by (simp_all add: crossWorld_def mkWorld_def gridCells_def upt_rec)
  have run: "rowRun widePrefs crossWorld 0 0 3"
    by (simp add: rowRun_def g upt_rec c inCircle_def inside_def widePrefs_def
          demoPrefs_def mkCell_def clamp_def)
       (simp add: crossWorld_def mkWorld_def)
  have chars: "rowString crossWorld 0 0 3 = ''cat''"
    by (simp add: rowString_def upt_rec c mkCell_def)
  have word: "spells (trie crossWorld) (rowString crossWorld 0 0 3)"
    unfolding chars g(4) by (rule cat_spells)
  have wf: "rows (grid crossWorld) * cols (grid crossWorld) \<le> length (cells crossWorld)"
    by (simp add: g)
  from row_runs_recorded [OF wf, of widePrefs] obtain cands where
    scan: "scanCandidates widePrefs crossWorld = Some cands"
    and found: "\<forall>r a n. rowRun widePrefs crossWorld r a n \<and>
        spells (trie crossWorld) (rowString crossWorld r a n) \<longrightarrow>
        (\<exists>cand \<in> set cands. runCandidate crossWorld cand r a n)"
    and runs: "\<forall>cand \<in> set cands. \<exists>r a n. rowRun widePrefs crossWorld r a n \<and>
        spells (trie crossWorld) (rowString crossWorld r a n) \<and> runCandidate crossWorld cand r a n"
    by blast
  from found run word obtain cand where
    cand: "cand \<in> set cands" "runCandidate crossWorld cand 0 0 3" by blast
  from cand(2) have "cand_word cand = ''cat''" by (simp add: runCandidate_def chars)
  with cand have ex: "\<exists>cand \<in> set cands. cand_word cand = ''cat'' \<and> runCandidate crossWorld cand 0 0 3"
    by blast
  from runs have "list_all (\<lambda>cand. cand_dir cand = H) cands"
    by (auto simp: list_all_iff runCandidate_def)
  with scan ex have "\<exists>cands. scanCandidates widePrefs crossWorld = Some cands \<and>
      (\<exists>cand \<in> set cands. cand_word cand = ''cat'' \<and> runCandidate crossWorld cand 0 0 3) \<and>
      list_all (\<lambda>cand. cand_dir cand = H) cands"
    by blast
  with run word show ?thesis by (intro conjI)
qed

end
